theory Spec2Isabelle
  imports Complex_Main "HOL-Library.AList" "HOL-Library.Multiset"
begin

section \<open>Data model of \<open>src/main.py\<close>\<close>

text \<open>
  The voting engine keeps all of its state in one \<open>InMemoryStorage\<close> object with five
  dictionaries. Every request handler is a coroutine whose reads and writes of the
  storage all happen before its first \<open>await\<close> that can suspend (the broadcasts at the
  end of the handler), so each handler is modelled as one atomic function from the
  storage to a result and the storage it leaves behind. The broadcasts themselves write
  only to the connection manager and are left out.

  Strings are byte strings (UTF-8). The three Cyrillic choice literals of the source are
  written as their UTF-8 bytes.

  A Python \<open>float\<close> is modelled by a real number. Floating-point arithmetic is exact
  arithmetic followed by rounding to the nearest double; the rounding function is the
  parameter \<open>rnd\<close> of the model, and everything below is proved for every such function.
  The conversion of an integer that is too large for a double raises \<open>OverflowError\<close>,
  which is modelled. (The sum of a clock reading and a converted integer becomes an
  infinity only for a clock reading of \<open>2^970\<close> seconds or more; \<open>time.time()\<close> returns
  no such value, so infinities are not modelled.)
\<close>

type_synonym token = string
type_synonym session_key = string
type_synonym timestamp = real

text \<open>Pydantic request models \<open>Member\<close>, \<open>Session\<close> and \<open>VotingSession\<close>.\<close>

record member =
  m_name :: string
  m_contact :: string

record session_model =
  sm_title :: string
  sm_description :: string
  sm_members :: "member list"

record voting_session =
  presenter_name :: string
  topic_title :: string
  topic_description :: string
  duration_minutes :: int

text \<open>The values of \<open>storage.sessions\<close>; the status strings
  \<open>"created"\<close>, \<open>"voting"\<close>, \<open>"completed"\<close> as an enumeration.\<close>

datatype session_status = Created | Voting | Completed

record session_data =
  s_id :: session_key
  s_title :: string
  s_description :: string
  s_created_at :: string
  s_status :: session_status

text \<open>The values of \<open>storage.tokens\<close>; \<open>voted_at\<close> is absent until redemption.\<close>

record token_data =
  tk_session_id :: session_key
  tk_member_name :: string
  tk_used :: bool
  tk_expires_at :: timestamp
  tk_created_at :: timestamp
  tk_voted_at :: "timestamp option"

text \<open>The entries of a ledger \<open>storage.votes[session_id]\<close>.\<close>

record vote_record =
  v_session_id :: session_key
  v_choice :: string
  v_timestamp :: timestamp
  v_token_hash :: string

text \<open>The dictionary \<open>votes_count\<close> of the source (initially all zero): its three keys are
  fixed (the code only ever does \<open>+= 1\<close> on an existing key), so it is a record of
  three unbounded integers.\<close>

record votes_count =
  c_for :: int
  c_against :: int
  c_abstain :: int

text \<open>The values of \<open>storage.active_voting\<close>; the status strings \<open>"active"\<close> and
  \<open>"completed"\<close> as an enumeration, \<open>results\<close> absent until the voting is ended.\<close>

datatype voting_status = Active | Finished

record voting_info =
  w_presenter_name :: string
  w_topic_title :: string
  w_topic_description :: string
  w_start_time :: timestamp
  w_end_time :: timestamp
  w_duration_minutes :: int
  w_status :: voting_status
  w_results :: "votes_count option"

text \<open>\<open>InMemoryStorage\<close>. The token dictionary is iterated by \<open>end_voting\<close>, so it is an
  association list in insertion order, written with \<open>AList.update\<close> (a Python dict keeps
  the position of a key that is assigned again); the others are only looked up.\<close>

record storage =
  sessions :: "session_key \<rightharpoonup> session_data"
  tokens :: "(token \<times> token_data) list"
  votes :: "session_key \<rightharpoonup> vote_record list"
  members :: "session_key \<rightharpoonup> member list"
  active_voting :: "session_key \<rightharpoonup> voting_info"

definition init_storage :: storage where
  "init_storage = \<lparr>sessions = Map.empty, tokens = [], votes = Map.empty,
                    members = Map.empty, active_voting = Map.empty\<rparr>"

text \<open>Every way a handler can fail. The first seven are the \<open>HTTPException\<close>s of the
  source (status code and detail in the comment); \<open>KeyError\<close> is an uncaught Python
  \<open>KeyError\<close> on a dictionary subscript, \<open>OverflowError\<close> an uncaught Python
  \<open>OverflowError\<close> ("int too large to convert to float") in \<open>float + int\<close>.\<close>

datatype error =
    SessionNotFound   \<comment> \<open>404, session not found (start_voting)\<close>
  | VotingNotFound    \<comment> \<open>404, active voting not found (end_voting)\<close>
  | TokenNotFound     \<comment> \<open>404, invalid token (submit_vote)\<close>
  | AlreadyUsed       \<comment> \<open>400, token already used (submit_vote)\<close>
  | Expired           \<comment> \<open>400, token expired (submit_vote)\<close>
  | InvalidState      \<comment> \<open>400, voting not active (submit_vote)\<close>
  | InvalidChoice     \<comment> \<open>400, inadmissible choice (submit_vote)\<close>
  | KeyError
  | OverflowError

text \<open>The three choice literals (Russian for "for", "against", "abstained"), as UTF-8.\<close>

definition choice_for :: string where
  "choice_for = [CHR 0xD0, CHR 0xB7, CHR 0xD0, CHR 0xB0]"

definition choice_against :: string where
  "choice_against = [CHR 0xD0, CHR 0xBF, CHR 0xD1, CHR 0x80, CHR 0xD0, CHR 0xBE,
                     CHR 0xD1, CHR 0x82, CHR 0xD0, CHR 0xB8, CHR 0xD0, CHR 0xB2]"

definition choice_abstain :: string where
  "choice_abstain = [CHR 0xD0, CHR 0xB2, CHR 0xD0, CHR 0xBE, CHR 0xD0, CHR 0xB7,
                     CHR 0xD0, CHR 0xB4, CHR 0xD0, CHR 0xB5, CHR 0xD1, CHR 0x80,
                     CHR 0xD0, CHR 0xB6, CHR 0xD0, CHR 0xB0, CHR 0xD0, CHR 0xBB,
                     CHR 0xD1, CHR 0x81, CHR 0xD1, CHR 0x8F]"

definition valid_choice :: "string \<Rightarrow> bool" where
  "valid_choice c \<longleftrightarrow> c = choice_for \<or> c = choice_against \<or> c = choice_abstain"

section \<open>The handlers\<close>

subsection \<open>Counting\<close>

text \<open>\<open>votes_count[vote["choice"]] += 1\<close>: a \<open>KeyError\<close> (here \<open>None\<close>) for a choice that
  is not one of the three keys.\<close>

definition count_one :: "votes_count \<Rightarrow> string \<Rightarrow> votes_count option" where
  "count_one vc c =
     (if c = choice_for then Some (vc\<lparr>c_for := c_for vc + 1\<rparr>)
      else if c = choice_against then Some (vc\<lparr>c_against := c_against vc + 1\<rparr>)
      else if c = choice_abstain then Some (vc\<lparr>c_abstain := c_abstain vc + 1\<rparr>)
      else None)"

text \<open>The loop \<open>for vote in ...: votes_count[vote["choice"]] += 1\<close>, which appears in
  \<open>end_voting\<close>, \<open>submit_vote\<close> and \<open>get_session_status\<close>.\<close>

fun count_votes :: "vote_record list \<Rightarrow> votes_count \<Rightarrow> votes_count option" where
  "count_votes [] vc = Some vc"
| "count_votes (v # vs) vc =
     (case count_one vc (v_choice v) of
        None \<Rightarrow> None
      | Some vc' \<Rightarrow> count_votes vs vc')"

definition zero_count :: votes_count where
  "zero_count = \<lparr>c_for = 0, c_against = 0, c_abstain = 0\<rparr>"

text \<open>The loop of \<open>end_voting\<close> over \<open>storage.tokens.items()\<close> that counts the tokens of
  the session which are not used.\<close>

fun count_unused :: "(token \<times> token_data) list \<Rightarrow> session_key \<Rightarrow> int \<Rightarrow> int" where
  "count_unused [] sid unused_tokens = unused_tokens"
| "count_unused ((tok, token_data) # rest) sid unused_tokens =
     count_unused rest sid
       (if tk_session_id token_data = sid \<and> \<not> tk_used token_data
        then unused_tokens + 1 else unused_tokens)"

text \<open>\<open>storage.votes.get(session_id, [])\<close>.\<close>

definition ledger :: "storage \<Rightarrow> session_key \<Rightarrow> vote_record list" where
  "ledger st sid = (case votes st sid of None \<Rightarrow> [] | Some vs \<Rightarrow> vs)"

subsection \<open>\<open>create_session\<close>\<close>

text \<open>\<open>generate_session_id()\<close> (a random UUID) and \<open>datetime.now().isoformat()\<close> are
  inputs of the model: \<open>session_id\<close> and \<open>created_at\<close>.\<close>

definition create_session ::
  "storage \<Rightarrow> session_key \<Rightarrow> string \<Rightarrow> session_model \<Rightarrow> (error + session_key) \<times> storage" where
  "create_session st session_id created_at session =
     (Inr session_id,
      st\<lparr>sessions := (sessions st)(session_id \<mapsto>
            \<lparr>s_id = session_id, s_title = sm_title session,
             s_description = sm_description session,
             s_created_at = created_at, s_status = Created\<rparr>),
         members := (members st)(session_id \<mapsto>
            map (\<lambda>m. \<lparr>m_name = m_name m, m_contact = m_contact m\<rparr>) (sm_members session)),
         votes := (votes st)(session_id \<mapsto> [])\<rparr>)"

subsection \<open>\<open>start_voting\<close>\<close>

text \<open>One element of the \<open>tokens\<close> list that \<open>start_voting\<close> returns.\<close>

record issued_token =
  it_member :: string
  it_contact :: string
  it_token :: token
  it_voting_url :: string

record start_result =
  sr_tokens :: "issued_token list"
  sr_voting_ends_at :: timestamp

text \<open>Python's \<open>float + int\<close> first converts the integer to a double. The conversion
  rounds to nearest (ties to even) and raises \<open>OverflowError\<close> when the result would
  exceed the largest double \<open>2^1024 - 2^971\<close>, that is from \<open>2^1024 - 2^970\<close> on. The sum
  of two doubles is the rounded exact sum.\<close>

definition fits_float :: "int \<Rightarrow> bool" where
  "fits_float n \<longleftrightarrow> \<bar>n\<bar> < 2 ^ 1024 - 2 ^ 970"

definition to_float :: "(real \<Rightarrow> timestamp) \<Rightarrow> int \<Rightarrow> timestamp" where
  "to_float rnd n = rnd (real_of_int n)"

definition float_add :: "(real \<Rightarrow> timestamp) \<Rightarrow> timestamp \<Rightarrow> timestamp \<Rightarrow> timestamp" where
  "float_add rnd a b = rnd (a + b)"

text \<open>The loop over the roster. \<open>generate_token()\<close> and \<open>time.time()\<close> are read from two
  streams: \<open>gen i\<close> is the token drawn for roster position \<open>i\<close>, and \<open>clock k\<close> is the
  \<open>k\<close>-th clock reading of the request (two per member, in source order). The entry of
  a member is written only after its \<open>expires_at\<close> has been computed, so an
  \<open>OverflowError\<close> there leaves the loop with the tokens written so far.\<close>

fun issue_tokens ::
  "(real \<Rightarrow> timestamp) \<Rightarrow> session_key \<Rightarrow> int \<Rightarrow> (nat \<Rightarrow> token) \<Rightarrow> (nat \<Rightarrow> timestamp) \<Rightarrow>
   nat \<Rightarrow> member list \<Rightarrow> (token \<times> token_data) list \<Rightarrow> issued_token list \<Rightarrow>
   (token \<times> token_data) list \<times> (error + issued_token list)" where
  "issue_tokens rnd sid dur gen clock i [] toks out = (toks, Inr out)"
| "issue_tokens rnd sid dur gen clock i (m # ms) toks out =
     (if \<not> fits_float (dur * 60) then (toks, Inl OverflowError)
      else issue_tokens rnd sid dur gen clock (Suc i) ms
        (AList.update (gen i)
           \<lparr>tk_session_id = sid, tk_member_name = m_name m, tk_used = False,
            tk_expires_at =
              float_add rnd (float_add rnd (clock (2 * i)) (to_float rnd (dur * 60)))
                (to_float rnd 300),
            tk_created_at = clock (2 * i + 1), tk_voted_at = None\<rparr> toks)
        (out @ [\<lparr>it_member = m_name m, it_contact = m_contact m, it_token = gen i,
                 it_voting_url = ''/vote?token='' @ gen i\<rparr>]))"

text \<open>The handler. Its only guard is the existence of the session. After the loop,
  \<open>end_time\<close> is computed (a second place for the \<open>OverflowError\<close>, reached with an
  empty roster), then the window is written over whatever \<open>storage.active_voting\<close> held
  for the session, and the session's status is set.\<close>

definition start_voting ::
  "(real \<Rightarrow> timestamp) \<Rightarrow> storage \<Rightarrow> session_key \<Rightarrow> voting_session \<Rightarrow> (nat \<Rightarrow> token) \<Rightarrow>
   (nat \<Rightarrow> timestamp) \<Rightarrow> (error + start_result) \<times> storage" where
  "start_voting rnd st session_id voting gen clock =
     (case sessions st session_id of
        None \<Rightarrow> (Inl SessionNotFound, st)
      | Some sess \<Rightarrow>
         (case members st session_id of
            None \<Rightarrow> (Inl KeyError, st)
          | Some ms \<Rightarrow>
             (case issue_tokens rnd session_id (duration_minutes voting) gen clock 0 ms
                     (tokens st) [] of
                (toks, Inl e) \<Rightarrow> (Inl e, st\<lparr>tokens := toks\<rparr>)
              | (toks, Inr issued) \<Rightarrow>
                 if \<not> fits_float (duration_minutes voting * 60)
                 then (Inl OverflowError, st\<lparr>tokens := toks\<rparr>)
                 else
                   (let n = length ms;
                        end_time = float_add rnd (clock (2 * n))
                                     (to_float rnd (duration_minutes voting * 60))
                    in (Inr \<lparr>sr_tokens = issued, sr_voting_ends_at = end_time\<rparr>,
                        st\<lparr>tokens := toks,
                           active_voting := (active_voting st)(session_id \<mapsto>
                              \<lparr>w_presenter_name = presenter_name voting,
                               w_topic_title = topic_title voting,
                               w_topic_description = topic_description voting,
                               w_start_time = clock (2 * n + 1),
                               w_end_time = end_time,
                               w_duration_minutes = duration_minutes voting,
                               w_status = Active,
                               w_results = None\<rparr>),
                           sessions := (sessions st)(session_id \<mapsto>
                              sess\<lparr>s_status := Voting\<rparr>)\<rparr>)))))"

subsection \<open>\<open>end_voting\<close> and \<open>auto_end_voting\<close>\<close>

text \<open>The only guard is \<open>session_id not in storage.active_voting\<close>. The results and the
  window status are written before \<open>storage.sessions[session_id]\<close> is subscripted, so a
  missing session leaves them written.\<close>

definition end_voting :: "storage \<Rightarrow> session_key \<Rightarrow> (error + votes_count) \<times> storage" where
  "end_voting st session_id =
     (case active_voting st session_id of
        None \<Rightarrow> (Inl VotingNotFound, st)
      | Some w \<Rightarrow>
         (case count_votes (ledger st session_id) zero_count of
            None \<Rightarrow> (Inl KeyError, st)
          | Some counted \<Rightarrow>
             (let unused_tokens = count_unused (tokens st) session_id 0;
                  votes_count = counted\<lparr>c_abstain := c_abstain counted + unused_tokens\<rparr>;
                  st1 = st\<lparr>active_voting := (active_voting st)(session_id \<mapsto>
                             w\<lparr>w_status := Finished, w_results := Some votes_count\<rparr>)\<rparr>
              in (case sessions st session_id of
                    None \<Rightarrow> (Inl KeyError, st1)
                  | Some sess \<Rightarrow>
                     (Inr votes_count,
                      st1\<lparr>sessions := (sessions st)(session_id \<mapsto>
                             sess\<lparr>s_status := Completed\<rparr>)\<rparr>)))))"

text \<open>The timer task: after its sleep it ends the voting only if the window is still
  active. It returns nothing; what it leaves is the storage.\<close>

definition auto_end_voting :: "storage \<Rightarrow> session_key \<Rightarrow> storage" where
  "auto_end_voting st session_id =
     (case active_voting st session_id of
        None \<Rightarrow> st
      | Some w \<Rightarrow> if w_status w = Active then snd (end_voting st session_id) else st)"

subsection \<open>\<open>submit_vote\<close>\<close>

text \<open>\<open>hash_token\<close> is \<open>hashlib.sha256(token.encode()).hexdigest()\<close>, a library function: it
  is the parameter \<open>H\<close>. The three clock readings of the handler are \<open>now\<close> (expiry
  check), \<open>ts\<close> (the vote's timestamp) and \<open>voted\<close> (\<open>voted_at\<close>). The live count for the
  broadcast is computed after the ledger and the token have been written.\<close>

definition submit_vote ::
  "(token \<Rightarrow> string) \<Rightarrow> storage \<Rightarrow> token \<Rightarrow> string \<Rightarrow> timestamp \<Rightarrow> timestamp \<Rightarrow> timestamp \<Rightarrow>
   (error + unit) \<times> storage" where
  "submit_vote H st tok choice now ts voted =
     (case map_of (tokens st) tok of
        None \<Rightarrow> (Inl TokenNotFound, st)
      | Some token_data \<Rightarrow>
         if tk_used token_data then (Inl AlreadyUsed, st)
         else if now > tk_expires_at token_data then (Inl Expired, st)
         else
           (let session_id = tk_session_id token_data in
            if (case active_voting st session_id of
                  None \<Rightarrow> True
                | Some w \<Rightarrow> w_status w \<noteq> Active) then (Inl InvalidState, st)
            else if \<not> valid_choice choice then (Inl InvalidChoice, st)
            else
              (let vote = \<lparr>v_session_id = session_id, v_choice = choice,
                           v_timestamp = ts, v_token_hash = H tok\<rparr>;
                   st1 = st\<lparr>votes := (votes st)(session_id \<mapsto> ledger st session_id @ [vote]),
                            tokens := AList.update tok
                               (token_data\<lparr>tk_used := True, tk_voted_at := Some voted\<rparr>)
                               (tokens st)\<rparr>
               in (case count_votes (ledger st1 session_id) zero_count of
                     None \<Rightarrow> (Inl KeyError, st1)
                   | Some current_votes \<Rightarrow> (Inr (), st1)))))"

section \<open>Runs of the engine\<close>

text \<open>A request, with the values it draws from the random generators and the clock.\<close>

datatype event =
    CreateSession session_key string session_model
  | StartVoting session_key voting_session "nat \<Rightarrow> token" "nat \<Rightarrow> timestamp"
  | EndVoting session_key
  | AutoEndVoting session_key
  | SubmitVote token string timestamp timestamp timestamp

fun step :: "(real \<Rightarrow> timestamp) \<Rightarrow> (token \<Rightarrow> string) \<Rightarrow> storage \<Rightarrow> event \<Rightarrow> storage" where
  "step rnd H st (CreateSession sid created_at session) =
     snd (create_session st sid created_at session)"
| "step rnd H st (StartVoting sid voting gen clock) = snd (start_voting rnd st sid voting gen clock)"
| "step rnd H st (EndVoting sid) = snd (end_voting st sid)"
| "step rnd H st (AutoEndVoting sid) = auto_end_voting st sid"
| "step rnd H st (SubmitVote tok choice now ts voted) =
     snd (submit_vote H st tok choice now ts voted)"

fun exec ::
  "(real \<Rightarrow> timestamp) \<Rightarrow> (token \<Rightarrow> string) \<Rightarrow> storage \<Rightarrow> event list \<Rightarrow> storage" where
  "exec rnd H st [] = st"
| "exec rnd H st (ev # evs) = exec rnd H (step rnd H st ev) evs"

text \<open>The tokens \<open>start_voting\<close> draws for a roster of \<open>n\<close> members.\<close>

definition drawn :: "(nat \<Rightarrow> token) \<Rightarrow> nat \<Rightarrow> token list" where
  "drawn gen n = map gen [0..<n]"

definition roster :: "storage \<Rightarrow> session_key \<Rightarrow> member list" where
  "roster st sid = (case members st sid of None \<Rightarrow> [] | Some ms \<Rightarrow> ms)"

text \<open>What the random sources guarantee (up to a negligible probability): a new UUID is
  not the key of an existing session, and the tokens drawn by one \<open>start_voting\<close> are
  pairwise different and different from every token issued before.\<close>

fun fresh :: "storage \<Rightarrow> event \<Rightarrow> bool" where
  "fresh st (CreateSession sid created_at session) \<longleftrightarrow> sessions st sid = None"
| "fresh st (StartVoting sid voting gen clock) \<longleftrightarrow>
     distinct (drawn gen (length (roster st sid))) \<and>
     list_all (\<lambda>t. map_of (tokens st) t = None) (drawn gen (length (roster st sid)))"
| "fresh st _ \<longleftrightarrow> True"

fun fresh_run ::
  "(real \<Rightarrow> timestamp) \<Rightarrow> (token \<Rightarrow> string) \<Rightarrow> storage \<Rightarrow> event list \<Rightarrow> bool" where
  "fresh_run rnd H st [] \<longleftrightarrow> True"
| "fresh_run rnd H st (ev # evs) \<longleftrightarrow> fresh st ev \<and> fresh_run rnd H (step rnd H st ev) evs"

text \<open>Whether an event is a call of \<open>start_voting\<close> on the session that succeeds, and how
  many voting windows a run opens on a session.\<close>

fun opens :: "(real \<Rightarrow> timestamp) \<Rightarrow> storage \<Rightarrow> event \<Rightarrow> session_key \<Rightarrow> bool" where
  "opens rnd st (StartVoting sid' voting gen clock) sid \<longleftrightarrow>
     sid' = sid \<and> \<not> isl (fst (start_voting rnd st sid' voting gen clock))"
| "opens rnd st _ sid \<longleftrightarrow> False"

fun windows_opened ::
  "(real \<Rightarrow> timestamp) \<Rightarrow> (token \<Rightarrow> string) \<Rightarrow> storage \<Rightarrow> event list \<Rightarrow> session_key \<Rightarrow> nat" where
  "windows_opened rnd H st [] sid = 0"
| "windows_opened rnd H st (ev # evs) sid =
     (if opens rnd st ev sid then 1 else 0) + windows_opened rnd H (step rnd H st ev) evs sid"

text \<open>The shapes of the strings the libraries return: \<open>str(uuid.uuid4())\<close> has 36
  characters, \<open>secrets.token_urlsafe(32)\<close> has 43, a SHA-256 \<open>hexdigest()\<close> has 64.\<close>

definition uuid_length :: nat where "uuid_length = 36"
definition token_length :: nat where "token_length = 43"
definition digest_length :: nat where "digest_length = 64"

fun shaped :: "storage \<Rightarrow> event \<Rightarrow> bool" where
  "shaped st (CreateSession sid created_at session) \<longleftrightarrow> length sid = uuid_length"
| "shaped st (StartVoting sid voting gen clock) \<longleftrightarrow>
     list_all (\<lambda>t. length t = token_length) (drawn gen (length (roster st sid)))"
| "shaped st _ \<longleftrightarrow> True"

fun shaped_run ::
  "(real \<Rightarrow> timestamp) \<Rightarrow> (token \<Rightarrow> string) \<Rightarrow> storage \<Rightarrow> event list \<Rightarrow> bool" where
  "shaped_run rnd H st [] \<longleftrightarrow> True"
| "shaped_run rnd H st (ev # evs) \<longleftrightarrow> shaped st ev \<and> shaped_run rnd H (step rnd H st ev) evs"

section \<open>Notions of the specification\<close>

text \<open>The tally engine as the specification words it: a pure function of a ledger and a
  count of outstanding credentials, whose \<open>abstain\<close> is the explicit abstain votes plus
  that count.\<close>

definition tally :: "vote_record list \<Rightarrow> nat \<Rightarrow> votes_count" where
  "tally vs outstandingCount =
     \<lparr>c_for = int (length (filter (\<lambda>v. v_choice v = choice_for) vs)),
      c_against = int (length (filter (\<lambda>v. v_choice v = choice_against) vs)),
      c_abstain = int (length (filter (\<lambda>v. v_choice v = choice_abstain) vs))
                  + int outstandingCount\<rparr>"

text \<open>The credentials of a session: all that were issued, the redeemed ones, and the
  outstanding (unredeemed) ones.\<close>

definition issued_for :: "storage \<Rightarrow> session_key \<Rightarrow> (token \<times> token_data) list" where
  "issued_for st sid = filter (\<lambda>(t, d). tk_session_id d = sid) (tokens st)"

definition redeemed_for :: "storage \<Rightarrow> session_key \<Rightarrow> (token \<times> token_data) list" where
  "redeemed_for st sid = filter (\<lambda>(t, d). tk_session_id d = sid \<and> tk_used d) (tokens st)"

definition outstanding_for :: "storage \<Rightarrow> session_key \<Rightarrow> (token \<times> token_data) list" where
  "outstanding_for st sid = filter (\<lambda>(t, d). tk_session_id d = sid \<and> \<not> tk_used d) (tokens st)"

text \<open>The window of a session is active: the condition \<open>submit_vote\<close> and
  \<open>auto_end_voting\<close> test.\<close>

definition window_active :: "storage \<Rightarrow> session_key \<Rightarrow> bool" where
  "window_active st sid =
     (case active_voting st sid of None \<Rightarrow> False | Some w \<Rightarrow> w_status w = Active)"

text \<open>The window of a session is closed: it exists with status \<open>completed\<close>.\<close>

definition window_closed :: "storage \<Rightarrow> session_key \<Rightarrow> bool" where
  "window_closed st sid =
     (case active_voting st sid of None \<Rightarrow> False | Some w \<Rightarrow> w_status w = Finished)"

section \<open>Auxiliary definitions\<close>

text \<open>Componentwise sum of two counts.\<close>

definition add_count :: "votes_count \<Rightarrow> votes_count \<Rightarrow> votes_count" where
  "add_count a b = \<lparr>c_for = c_for a + c_for b, c_against = c_against a + c_against b,
                    c_abstain = c_abstain a + c_abstain b\<rparr>"

text \<open>The entries \<open>issue_tokens\<close> adds to the token dictionary when the duration fits a
  double and every drawn token is new.\<close>

fun new_entries ::
  "(real \<Rightarrow> timestamp) \<Rightarrow> session_key \<Rightarrow> int \<Rightarrow> (nat \<Rightarrow> token) \<Rightarrow> (nat \<Rightarrow> timestamp) \<Rightarrow>
   nat \<Rightarrow> member list \<Rightarrow> (token \<times> token_data) list" where
  "new_entries rnd sid dur gen clock i [] = []"
| "new_entries rnd sid dur gen clock i (m # ms) =
     (gen i, \<lparr>tk_session_id = sid, tk_member_name = m_name m, tk_used = False,
              tk_expires_at =
                float_add rnd (float_add rnd (clock (2 * i)) (to_float rnd (dur * 60)))
                  (to_float rnd 300),
              tk_created_at = clock (2 * i + 1), tk_voted_at = None\<rparr>)
     # new_entries rnd sid dur gen clock (Suc i) ms"

text \<open>The error \<open>submit_vote\<close> raises for a known credential when its guards are read in
  source order, up to the window guard.\<close>

definition guard_error :: "token_data \<Rightarrow> timestamp \<Rightarrow> error" where
  "guard_error d now =
     (if tk_used d then AlreadyUsed else if now > tk_expires_at d then Expired else InvalidState)"

text \<open>The storage after \<open>submit_vote\<close> has accepted a vote: one record appended to the
  session's ledger, the token marked as used.\<close>

definition record_vote ::
  "(token \<Rightarrow> string) \<Rightarrow> storage \<Rightarrow> token \<Rightarrow> token_data \<Rightarrow> string \<Rightarrow> timestamp \<Rightarrow> timestamp \<Rightarrow> storage" where
  "record_vote H st tok d choice ts voted =
     st\<lparr>votes := (votes st)(tk_session_id d \<mapsto> ledger st (tk_session_id d) @
            [\<lparr>v_session_id = tk_session_id d, v_choice = choice,
              v_timestamp = ts, v_token_hash = H tok\<rparr>]),
        tokens := AList.update tok (d\<lparr>tk_used := True, tk_voted_at := Some voted\<rparr>) (tokens st)\<rparr>"

text \<open>The invariant of the storage: token keys are distinct, every token belongs to a
  registered session, the hashes in a ledger are those of the session's redeemed tokens
  (as multisets), a ledger holds admissible choices under its own session key, and a
  window exists only for a registered session.\<close>

definition consistent :: "(token \<Rightarrow> string) \<Rightarrow> storage \<Rightarrow> bool" where
  "consistent H st \<longleftrightarrow>
     distinct (map fst (tokens st)) \<and>
     (\<forall>(t, d) \<in> set (tokens st). sessions st (tk_session_id d) \<noteq> None) \<and>
     (\<forall>sid. mset (map v_token_hash (ledger st sid)) = mset (map (H \<circ> fst) (redeemed_for st sid))) \<and>
     (\<forall>sid. list_all (\<lambda>v. valid_choice (v_choice v) \<and> v_session_id v = sid) (ledger st sid)) \<and>
     (\<forall>sid. active_voting st sid \<noteq> None \<longrightarrow> sessions st sid \<noteq> None)"

text \<open>Every ledger holds admissible choices only.\<close>

definition valid_ledgers :: "storage \<Rightarrow> bool" where
  "valid_ledgers st \<longleftrightarrow> (\<forall>sid. list_all (\<lambda>v. valid_choice (v_choice v)) (ledger st sid))"

text \<open>Every stored token and every session key has the shape its generator gives it.\<close>

definition shapes_ok :: "storage \<Rightarrow> bool" where
  "shapes_ok st \<longleftrightarrow>
     list_all (\<lambda>t. length t = token_length) (map fst (tokens st)) \<and>
     (\<forall>sid. sessions st sid \<noteq> None \<longrightarrow> length sid = uuid_length)"

section \<open>Concrete inputs\<close>

text \<open>Inputs for running the model: a session key and two tokens of the shapes the
  libraries produce, a stand-in for the hash with the digest's length, a roster of two.\<close>

definition demo_sid :: session_key where
  "demo_sid = ''123e4567-e89b-42d3-a456-426614174000''"

definition demo_token_a :: token where
  "demo_token_a = ''Zm9vYmFyYmF6cXV4Zm9vYmFyYmF6cXV4Zm9vYmFyYmE''"

definition demo_token_b :: token where
  "demo_token_b = ''cXV4YmF6YmFyZm9vcXV4YmF6YmFyZm9vcXV4YmF6YmE''"

definition demo_token_c :: token where
  "demo_token_c = ''YmFyZm9vcXV4YmF6YmFyZm9vcXV4YmF6YmFyZm9vcXU''"

definition demo_token_d :: token where
  "demo_token_d = ''YmF6cXV4Zm9vYmFyYmF6cXV4Zm9vYmFyYmF6cXV4Zm8''"

definition demo_regen :: "nat \<Rightarrow> token" where
  "demo_regen i = (if i = 0 then demo_token_c else demo_token_d)"

definition demo_gen :: "nat \<Rightarrow> token" where
  "demo_gen i = (if i = 0 then demo_token_a else demo_token_b)"

definition demo_clock :: "nat \<Rightarrow> timestamp" where
  "demo_clock k = 1000"

text \<open>The numbers of the demonstration are small integers, which are doubles: rounding
  leaves them as they are.\<close>

definition demo_rnd :: "real \<Rightarrow> timestamp" where
  "demo_rnd x = x"

definition demo_padding :: string where
  "demo_padding = ''0000000000000000000000000000000000000000000000000000000000000000''"

definition demo_hash :: "token \<Rightarrow> string" where
  "demo_hash t = take 64 (t @ demo_padding)"

definition demo_session :: session_model where
  "demo_session = \<lparr>sm_title = ''Board'', sm_description = ''Budget'',
     sm_members = [\<lparr>m_name = ''Ann'', m_contact = ''ann@example.org''\<rparr>,
                   \<lparr>m_name = ''Bob'', m_contact = ''bob@example.org''\<rparr>]\<rparr>"

definition empty_session :: session_model where
  "empty_session = \<lparr>sm_title = ''Board'', sm_description = ''Budget'', sm_members = []\<rparr>"

definition demo_voting :: voting_session where
  "demo_voting = \<lparr>presenter_name = ''Ann'', topic_title = ''Budget'',
     topic_description = ''Approve the budget'', duration_minutes = 1\<rparr>"

definition demo_vote :: "string \<Rightarrow> string \<Rightarrow> vote_record" where
  "demo_vote c h = \<lparr>v_session_id = demo_sid, v_choice = c, v_timestamp = 1000, v_token_hash = h\<rparr>"

text \<open>A session with an open window, and the same session after one vote and a close.\<close>

definition demo_open :: "event list" where
  "demo_open = [CreateSession demo_sid ''2024-01-01T10:00:00'' demo_session,
                StartVoting demo_sid demo_voting demo_gen demo_clock]"

definition demo_closed :: "event list" where
  "demo_closed = demo_open @ [SubmitVote demo_token_a choice_for 1001 1001 1001,
                              EndVoting demo_sid]"

text \<open>The session with an open window after its first vote.\<close>

definition demo_voted :: "event list" where
  "demo_voted = demo_open @ [SubmitVote demo_token_a choice_for 1001 1001 1001]"

text \<open>What happens after the first vote in \<open>demo_closed\<close>: the close, and a second
  submission of the same token after it.\<close>

definition demo_later :: "event list" where
  "demo_later = [EndVoting demo_sid, SubmitVote demo_token_a choice_against 1002 1002 1002]"

text \<open>Requests after the close of \<open>demo_closed\<close>: a late vote and a second close; and the
  closed session with a window opened on it once more.\<close>

definition demo_after_close :: "event list" where
  "demo_after_close = [SubmitVote demo_token_b choice_for 1002 1002 1002, EndVoting demo_sid]"

definition demo_reopened :: "event list" where
  "demo_reopened = demo_closed @ [StartVoting demo_sid demo_voting demo_regen demo_clock]"


section \<open>Counting\<close>

lemma choices_distinct:
  "choice_for \<noteq> choice_against" "choice_for \<noteq> choice_abstain" "choice_against \<noteq> choice_abstain"
  "choice_against \<noteq> choice_for" "choice_abstain \<noteq> choice_for" "choice_abstain \<noteq> choice_against"
  by (simp_all add: choice_for_def choice_against_def choice_abstain_def)

text \<open>The counting loop succeeds exactly on ledgers whose choices are all keys of the
  count, and then adds the number of votes of each choice.\<close>

lemma count_votes_valid:
  "list_all (\<lambda>v. valid_choice (v_choice v)) vs \<Longrightarrow>
   count_votes vs vc = Some (add_count vc (tally vs 0))"
proof (induction vs arbitrary: vc)
  case Nil
  then show ?case by (simp add: add_count_def tally_def)
next
  case (Cons v vs)
  then show ?case
    by (auto simp: count_one_def valid_choice_def add_count_def tally_def choices_distinct)
qed

lemma count_votes_invalid:
  "\<not> list_all (\<lambda>v. valid_choice (v_choice v)) vs \<Longrightarrow> count_votes vs vc = None"
proof (induction vs arbitrary: vc)
  case Nil
  then show ?case by simp
next
  case (Cons v vs)
  then show ?case
    by (auto simp: count_one_def valid_choice_def split: option.splits)
qed

lemma count_votes_zero:
  "list_all (\<lambda>v. valid_choice (v_choice v)) vs \<Longrightarrow> count_votes vs zero_count = Some (tally vs 0)"
  by (simp add: count_votes_valid add_count_def zero_count_def tally_def)

lemma count_unused_filter:
  "count_unused toks sid n =
   n + int (length (filter (\<lambda>(t, d). tk_session_id d = sid \<and> \<not> tk_used d) toks))"
  by (induction toks sid n rule: count_unused.induct) auto

lemma tally_mset: "mset xs = mset ys \<Longrightarrow> tally xs n = tally ys n"
proof -
  assume a: "mset xs = mset ys"
  have "\<And>P. length (filter P xs) = length (filter P ys)"
  proof -
    fix P :: "vote_record \<Rightarrow> bool"
    have "size (filter_mset P (mset xs)) = size (filter_mset P (mset ys))" using a by simp
    then show "length (filter P xs) = length (filter P ys)" by (simp flip: mset_filter)
  qed
  then show ?thesis by (simp add: tally_def)
qed

lemma tally_total:
  "list_all (\<lambda>v. valid_choice (v_choice v)) vs \<Longrightarrow>
   c_for (tally vs n) + c_against (tally vs n) + c_abstain (tally vs n) = int (length vs) + int n"
  by (induction vs) (auto simp: tally_def valid_choice_def choices_distinct)

lemma demo_tokens_distinct:
  "demo_token_a \<noteq> demo_token_b" "demo_token_b \<noteq> demo_token_a"
  "demo_token_a \<noteq> demo_token_c" "demo_token_c \<noteq> demo_token_a"
  "demo_token_a \<noteq> demo_token_d" "demo_token_d \<noteq> demo_token_a"
  "demo_token_b \<noteq> demo_token_c" "demo_token_c \<noteq> demo_token_b"
  "demo_token_b \<noteq> demo_token_d" "demo_token_d \<noteq> demo_token_b"
  "demo_token_c \<noteq> demo_token_d" "demo_token_d \<noteq> demo_token_c"
  by (simp_all add: demo_token_a_def demo_token_b_def demo_token_c_def demo_token_d_def)

text \<open>
  Claim C9. The tally is order-independent: the counting loop gives the same result on a
  ledger and on every permutation of it (the same counts, or the same \<open>KeyError\<close> when the
  ledger holds a choice that is not a key).
\<close>

theorem tally_order_independent:
  "mset xs = mset ys \<Longrightarrow> count_votes xs zero_count = count_votes ys zero_count"
proof -
  assume a: "mset xs = mset ys"
  then have s: "set xs = set ys" by (rule mset_eq_setD)
  show ?thesis
  proof (cases "list_all (\<lambda>v. valid_choice (v_choice v)) xs")
    case True
    then have "list_all (\<lambda>v. valid_choice (v_choice v)) ys" using s by (simp add: list_all_iff)
    with True a show ?thesis by (simp add: count_votes_valid tally_mset [OF a])
  next
    case False
    then have "\<not> list_all (\<lambda>v. valid_choice (v_choice v)) ys" using s by (simp add: list_all_iff)
    with False show ?thesis by (simp add: count_votes_invalid)
  qed
qed

theorem tally_order_independent_witness:
  "mset [demo_vote choice_for ''a'', demo_vote choice_abstain ''b'', demo_vote choice_for ''c'']
     = mset [demo_vote choice_abstain ''b'', demo_vote choice_for ''c'', demo_vote choice_for ''a''] \<and>
   count_votes [demo_vote choice_for ''a'', demo_vote choice_abstain ''b'', demo_vote choice_for ''c''] zero_count
     = count_votes [demo_vote choice_abstain ''b'', demo_vote choice_for ''c'', demo_vote choice_for ''a''] zero_count \<and>
   count_votes [demo_vote choice_abstain ''b'', demo_vote choice_for ''c'', demo_vote choice_for ''a''] zero_count
     = Some \<lparr>c_for = 2, c_against = 0, c_abstain = 1\<rparr>"
proof -
  have m: "mset [demo_vote choice_for ''a'', demo_vote choice_abstain ''b'', demo_vote choice_for ''c'']
     = mset [demo_vote choice_abstain ''b'', demo_vote choice_for ''c'', demo_vote choice_for ''a'']"
    by simp
  have v: "count_votes [demo_vote choice_abstain ''b'', demo_vote choice_for ''c'', demo_vote choice_for ''a''] zero_count
     = Some \<lparr>c_for = 2, c_against = 0, c_abstain = 1\<rparr>"
    by (simp add: demo_vote_def count_one_def zero_count_def choices_distinct)
  show ?thesis using m tally_order_independent [OF m] v by simp
qed

section \<open>Association lists\<close>

lemma update_new: "map_of al k = None \<Longrightarrow> AList.update k v al = al @ [(k, v)]"
  by (induction al) (auto split: if_splits)

lemma update_split:
  "map_of al k = Some d \<Longrightarrow>
   \<exists>xs ys. al = xs @ (k, d) # ys \<and> AList.update k d' al = xs @ (k, d') # ys"
proof (induction al)
  case Nil
  then show ?case by simp
next
  case (Cons p al)
  show ?case
  proof (cases "fst p = k")
    case True
    with Cons.prems have "p = (k, d)" by (cases p) simp
    then have "p # al = [] @ (k, d) # al \<and> AList.update k d' (p # al) = [] @ (k, d') # al"
      by simp
    then show ?thesis by blast
  next
    case False
    with Cons.prems have "map_of al k = Some d" by (cases p) (simp split: if_splits)
    from Cons.IH [OF this] obtain xs ys
      where "al = xs @ (k, d) # ys" "AList.update k d' al = xs @ (k, d') # ys" by blast
    with False have "p # al = (p # xs) @ (k, d) # ys \<and>
        AList.update k d' (p # al) = (p # xs) @ (k, d') # ys"
      by (cases p) simp
    then show ?thesis by blast
  qed
qed

section \<open>What each handler writes\<close>

lemma submit_vote_unfold:
  "submit_vote H st tok choice now ts voted =
     (case map_of (tokens st) tok of
        None \<Rightarrow> (Inl TokenNotFound, st)
      | Some d \<Rightarrow>
          if tk_used d \<or> now > tk_expires_at d \<or> \<not> window_active st (tk_session_id d)
          then (Inl (guard_error d now), st)
          else if \<not> valid_choice choice then (Inl InvalidChoice, st)
          else (case count_votes (ledger (record_vote H st tok d choice ts voted) (tk_session_id d))
                       zero_count of
                  None \<Rightarrow> (Inl KeyError, record_vote H st tok d choice ts voted)
                | Some current_votes \<Rightarrow> (Inr (), record_vote H st tok d choice ts voted)))"
  by (simp add: submit_vote_def window_active_def guard_error_def record_vote_def Let_def
      split: option.splits)

lemma ledger_record_vote:
  "ledger (record_vote H st tok d choice ts voted) sid =
     (if sid = tk_session_id d
      then ledger st sid @ [\<lparr>v_session_id = sid, v_choice = choice,
                              v_timestamp = ts, v_token_hash = H tok\<rparr>]
      else ledger st sid)"
  by (simp add: record_vote_def ledger_def)

lemma fields_record_vote [simp]:
  "sessions (record_vote H st tok d choice ts voted) = sessions st"
  "members (record_vote H st tok d choice ts voted) = members st"
  "active_voting (record_vote H st tok d choice ts voted) = active_voting st"
  "tokens (record_vote H st tok d choice ts voted) =
     AList.update tok (d\<lparr>tk_used := True, tk_voted_at := Some voted\<rparr>) (tokens st)"
  by (simp_all add: record_vote_def)

lemma submit_vote_accepts:
  assumes "map_of (tokens st) tok = Some d" "\<not> tk_used d" "\<not> now > tk_expires_at d"
    "window_active st (tk_session_id d)" "valid_choice choice"
    "list_all (\<lambda>v. valid_choice (v_choice v)) (ledger st (tk_session_id d))"
  shows "submit_vote H st tok choice now ts voted = (Inr (), record_vote H st tok d choice ts voted)"
proof -
  have "list_all (\<lambda>v. valid_choice (v_choice v))
          (ledger (record_vote H st tok d choice ts voted) (tk_session_id d))"
    using assms(5,6) by (simp add: ledger_record_vote)
  then have "count_votes (ledger (record_vote H st tok d choice ts voted) (tk_session_id d)) zero_count
      \<noteq> None"
    by (simp add: count_votes_zero)
  with assms(1-5) show ?thesis
    by (auto simp: submit_vote_unfold)
qed

lemma submit_vote_snd:
  "snd (submit_vote H st tok choice now ts voted) = st \<or>
   (\<exists>d. map_of (tokens st) tok = Some d \<and> \<not> tk_used d \<and> window_active st (tk_session_id d) \<and>
        valid_choice choice \<and>
        snd (submit_vote H st tok choice now ts voted) = record_vote H st tok d choice ts voted)"
  by (auto simp: submit_vote_unfold split: option.splits)

lemma member_rebuild: "map (\<lambda>m. \<lparr>m_name = m_name m, m_contact = m_contact m\<rparr>) ms = ms"
  by (induction ms) simp_all

lemma upt_shift: "[i..<i + Suc n] = i # [Suc i..<Suc i + n]"
  using upt_conv_Cons [of i "i + Suc n"] by simp

lemma fields_create_session [simp]:
  "tokens (snd (create_session st sid created_at session)) = tokens st"
  "active_voting (snd (create_session st sid created_at session)) = active_voting st"
  "votes (snd (create_session st sid created_at session)) = (votes st)(sid \<mapsto> [])"
  "members (snd (create_session st sid created_at session)) = (members st)(sid \<mapsto> sm_members session)"
  "sessions (snd (create_session st sid created_at session)) sid' = None \<longleftrightarrow>
     sid' \<noteq> sid \<and> sessions st sid' = None"
  by (simp_all add: create_session_def member_rebuild)

lemma fields_end_voting [simp]:
  "tokens (snd (end_voting st sid)) = tokens st"
  "votes (snd (end_voting st sid)) = votes st"
  "members (snd (end_voting st sid)) = members st"
  "sessions (snd (end_voting st sid)) sid' = None \<longleftrightarrow> sessions st sid' = None"
  "active_voting (snd (end_voting st sid)) sid' = None \<longleftrightarrow> active_voting st sid' = None"
  by (simp_all add: end_voting_def Let_def split: option.splits)

lemma fields_auto_end_voting [simp]:
  "tokens (auto_end_voting st sid) = tokens st"
  "votes (auto_end_voting st sid) = votes st"
  "members (auto_end_voting st sid) = members st"
  "sessions (auto_end_voting st sid) sid' = None \<longleftrightarrow> sessions st sid' = None"
  "active_voting (auto_end_voting st sid) sid' = None \<longleftrightarrow> active_voting st sid' = None"
  by (simp_all add: auto_end_voting_def split: option.splits)

section \<open>Issuing tokens\<close>

lemma keys_new_entries:
  "map fst (new_entries rnd sid dur gen clock i ms) = map gen [i..<i + length ms]"
proof (induction ms arbitrary: i)
  case Nil
  then show ?case by simp
next
  case (Cons m ms)
  have "[i..<i + length (m # ms)] = i # [Suc i..<Suc i + length ms]"
    using upt_shift [of i "length ms"] by simp
  with Cons.IH [of "Suc i"] show ?case by simp
qed

lemma new_entries_unused:
  "(t, d) \<in> set (new_entries rnd sid dur gen clock i ms) \<Longrightarrow> tk_session_id d = sid \<and> \<not> tk_used d"
  by (induction ms arbitrary: i) auto

lemma length_new_entries [simp]: "length (new_entries rnd sid dur gen clock i ms) = length ms"
  by (induction ms arbitrary: i) auto

text \<open>A duration that does not fit a double stops the loop at the first member, before
  anything is written.\<close>

lemma issue_tokens_overflow:
  "\<not> fits_float (dur * 60) \<Longrightarrow>
   issue_tokens rnd sid dur gen clock i ms toks out =
     (toks, if ms = [] then Inr out else Inl OverflowError)"
  by (cases ms) simp_all

lemma issue_tokens_issued:
  "fits_float (dur * 60) \<Longrightarrow>
   \<exists>issued. snd (issue_tokens rnd sid dur gen clock i ms toks out) = Inr issued \<and>
     map it_token issued = map it_token out @ map gen [i..<i + length ms]"
proof (induction ms arbitrary: i toks out)
  case Nil
  then show ?case by simp
next
  case (Cons m ms)
  have u: "map gen [i..<i + length (m # ms)] = gen i # map gen [Suc i..<Suc i + length ms]"
    using upt_shift [of i "length ms"] by simp
  let ?toks = "AList.update (gen i)
           \<lparr>tk_session_id = sid, tk_member_name = m_name m, tk_used = False,
            tk_expires_at =
              float_add rnd (float_add rnd (clock (2 * i)) (to_float rnd (dur * 60)))
                (to_float rnd 300),
            tk_created_at = clock (2 * i + 1), tk_voted_at = None\<rparr> toks"
  let ?out = "out @ [\<lparr>it_member = m_name m, it_contact = m_contact m, it_token = gen i,
                 it_voting_url = ''/vote?token='' @ gen i\<rparr>]"
  from Cons.IH [OF Cons.prems, of "Suc i" ?toks ?out] obtain issued where
    "snd (issue_tokens rnd sid dur gen clock (Suc i) ms ?toks ?out) = Inr issued"
    "map it_token issued = map it_token ?out @ map gen [Suc i..<Suc i + length ms]"
    by blast
  with Cons.prems u show ?case by simp
qed

lemma issue_tokens_fresh:
  "fits_float (dur * 60) \<Longrightarrow>
   distinct (map gen [i..<i + length ms]) \<Longrightarrow>
   list_all (\<lambda>t. map_of toks t = None) (map gen [i..<i + length ms]) \<Longrightarrow>
   fst (issue_tokens rnd sid dur gen clock i ms toks out) = toks @ new_entries rnd sid dur gen clock i ms"
proof (induction ms arbitrary: i toks out)
  case Nil
  then show ?case by simp
next
  case (Cons m ms)
  let ?d = "\<lparr>tk_session_id = sid, tk_member_name = m_name m, tk_used = False,
             tk_expires_at =
               float_add rnd (float_add rnd (clock (2 * i)) (to_float rnd (dur * 60)))
                 (to_float rnd 300),
             tk_created_at = clock (2 * i + 1), tk_voted_at = None\<rparr>"
  define later where "later = map gen [Suc i..<Suc i + length ms]"
  have u: "map gen [i..<i + length (m # ms)] = gen i # later"
    using upt_shift [of i "length ms"] by (simp add: later_def)
  have p1: "distinct (gen i # later)"
    using Cons.prems(2) unfolding u .
  have p2: "list_all (\<lambda>t. map_of toks t = None) (gen i # later)"
    using Cons.prems(3) unfolding u .
  from p1 have d: "distinct later" and ni: "gen i \<notin> set later" by simp_all
  from p2 have fresh_i: "map_of toks (gen i) = None"
    and rest: "list_all (\<lambda>t. map_of toks t = None) later" by simp_all
  have upd: "AList.update (gen i) ?d toks = toks @ [(gen i, ?d)]"
    using fresh_i by (rule update_new)
  have "list_all (\<lambda>t. map_of (toks @ [(gen i, ?d)]) t = None) later"
    unfolding list_all_iff
  proof
    fix t assume "t \<in> set later"
    with rest ni have "map_of toks t = None" "t \<noteq> gen i" by (auto simp: list_all_iff)
    then show "map_of (toks @ [(gen i, ?d)]) t = None" by (simp add: map_add_def)
  qed
  from Cons.IH [OF Cons.prems(1) d [unfolded later_def] this [unfolded later_def]] upd
    Cons.prems(1)
  show ?case by simp
qed

lemma keys_issue_tokens:
  "fst ` set (fst (issue_tokens rnd sid dur gen clock i ms toks out)) \<subseteq>
   fst ` set toks \<union> gen ` {i..<i + length ms}"
proof (cases "fits_float (dur * 60)")
  case False
  then show ?thesis by (simp add: issue_tokens_overflow)
next
  case True
  then have "fst ` set (fst (issue_tokens rnd sid dur gen clock i ms toks out)) =
      fst ` set toks \<union> gen ` {i..<i + length ms}"
  proof (induction ms arbitrary: i toks out)
    case Nil
    then show ?case by simp
  next
    case (Cons m ms)
    have "{i..<i + length (m # ms)} = insert i {Suc i..<Suc i + length ms}" by auto
    with Cons.prems show ?case by (simp add: Cons.IH AList.dom_update)
  qed
  then show ?thesis by simp
qed

section \<open>What \<open>start_voting\<close> writes\<close>

lemma start_voting_unfold:
  "start_voting rnd st sid voting gen clock =
     (case sessions st sid of
        None \<Rightarrow> (Inl SessionNotFound, st)
      | Some sess \<Rightarrow>
         (case members st sid of
            None \<Rightarrow> (Inl KeyError, st)
          | Some ms \<Rightarrow>
             if \<not> fits_float (duration_minutes voting * 60) then (Inl OverflowError, st)
             else
             (Inr \<lparr>sr_tokens = projr (snd (issue_tokens rnd sid (duration_minutes voting) gen clock 0 ms (tokens st) [])),
                   sr_voting_ends_at = float_add rnd (clock (2 * length ms))
                                         (to_float rnd (duration_minutes voting * 60))\<rparr>,
              st\<lparr>tokens := fst (issue_tokens rnd sid (duration_minutes voting) gen clock 0 ms (tokens st) []),
                 active_voting := (active_voting st)(sid \<mapsto>
                    \<lparr>w_presenter_name = presenter_name voting,
                     w_topic_title = topic_title voting,
                     w_topic_description = topic_description voting,
                     w_start_time = clock (2 * length ms + 1),
                     w_end_time = float_add rnd (clock (2 * length ms))
                                    (to_float rnd (duration_minutes voting * 60)),
                     w_duration_minutes = duration_minutes voting,
                     w_status = Active,
                     w_results = None\<rparr>),
                 sessions := (sessions st)(sid \<mapsto> sess\<lparr>s_status := Voting\<rparr>)\<rparr>)))"
proof (cases "sessions st sid")
  case None
  then show ?thesis by (simp add: start_voting_def)
next
  case sess: (Some sess)
  show ?thesis
  proof (cases "members st sid")
    case None
    with sess show ?thesis by (simp add: start_voting_def)
  next
    case ms: (Some ms)
    show ?thesis
    proof (cases "fits_float (duration_minutes voting * 60)")
      case False
      with sess ms show ?thesis
        by (simp add: start_voting_def issue_tokens_overflow)
    next
      case True
      from issue_tokens_issued [OF True, of rnd sid gen clock 0 ms "tokens st" "[]"]
      obtain issued where
        "snd (issue_tokens rnd sid (duration_minutes voting) gen clock 0 ms (tokens st) []) = Inr issued"
        by blast
      with sess ms True show ?thesis
        by (simp add: start_voting_def Let_def case_prod_beta)
    qed
  qed
qed

lemma fields_start_voting [simp]:
  "votes (snd (start_voting rnd st sid voting gen clock)) = votes st"
  "members (snd (start_voting rnd st sid voting gen clock)) = members st"
  "sessions (snd (start_voting rnd st sid voting gen clock)) sid' = None \<longleftrightarrow> sessions st sid' = None"
  by (simp_all add: start_voting_unfold split: option.splits if_splits)

lemma active_voting_start_voting:
  "active_voting st sid' \<noteq> None \<Longrightarrow> active_voting (snd (start_voting rnd st sid voting gen clock)) sid' \<noteq> None"
  by (simp add: start_voting_unfold split: option.splits if_splits)

lemma start_voting_opens:
  "\<not> isl (fst (start_voting rnd st sid voting gen clock)) \<longleftrightarrow>
     sessions st sid \<noteq> None \<and> members st sid \<noteq> None \<and>
     fits_float (duration_minutes voting * 60)"
  by (simp add: start_voting_unfold split: option.splits if_splits)

lemma tokens_start_voting:
  "tokens (snd (start_voting rnd st sid voting gen clock)) =
     (if \<not> isl (fst (start_voting rnd st sid voting gen clock))
      then fst (issue_tokens rnd sid (duration_minutes voting) gen clock 0 (roster st sid) (tokens st) [])
      else tokens st)"
  by (simp add: start_voting_unfold roster_def split: option.splits if_splits)

text \<open>The demonstration's duration of one minute fits a double.\<close>

lemma fits_float_minute: "fits_float 60"
  by (simp add: fits_float_def)

section \<open>The invariant\<close>

lemma ledger_cong: "votes st' = votes st \<Longrightarrow> ledger st' sid = ledger st sid"
  by (simp add: ledger_def)

lemma redeemed_for_cong: "tokens st' = tokens st \<Longrightarrow> redeemed_for st' sid = redeemed_for st sid"
  by (simp add: redeemed_for_def)

lemma consistent_init: "consistent H init_storage"
  by (simp add: consistent_def init_storage_def ledger_def redeemed_for_def)

lemma consistent_same:
  assumes "consistent H st" "tokens st' = tokens st" "votes st' = votes st"
    "\<And>sid. sessions st' sid = None \<longleftrightarrow> sessions st sid = None"
    "\<And>sid. active_voting st' sid = None \<longleftrightarrow> active_voting st sid = None"
  shows "consistent H st'"
  using assms(1) unfolding consistent_def
  by (simp add: assms(2-5) ledger_cong [OF assms(3)] redeemed_for_cong [OF assms(2)])

lemma consistent_end_voting: "consistent H st \<Longrightarrow> consistent H (snd (end_voting st sid))"
  by (rule consistent_same) simp_all

lemma consistent_auto_end_voting: "consistent H st \<Longrightarrow> consistent H (auto_end_voting st sid)"
  by (rule consistent_same) simp_all

lemma consistent_no_tokens:
  assumes "consistent H st" "sessions st sid = None"
  shows "issued_for st sid = []" "redeemed_for st sid = []" "ledger st sid = []"
proof -
  from assms have no: "\<forall>(t, d) \<in> set (tokens st). tk_session_id d \<noteq> sid"
    unfolding consistent_def by auto
  then show i: "issued_for st sid = []"
    by (auto simp: issued_for_def filter_empty_conv)
  from no show r: "redeemed_for st sid = []"
    by (auto simp: redeemed_for_def filter_empty_conv)
  from assms(1) have "mset (map v_token_hash (ledger st sid)) = mset (map (H \<circ> fst) (redeemed_for st sid))"
    unfolding consistent_def by blast
  with r show "ledger st sid = []" by simp
qed

lemma consistent_create_session:
  assumes "consistent H st" "sessions st sid = None"
  shows "consistent H (snd (create_session st sid created_at session))"
proof -
  let ?st' = "snd (create_session st sid created_at session)"
  have led: "ledger ?st' sid' = ledger st sid'" for sid'
    using consistent_no_tokens(3) [OF assms] by (simp add: ledger_def)
  have red: "redeemed_for ?st' sid' = redeemed_for st sid'" for sid'
    by (simp add: redeemed_for_def)
  from assms(1) show ?thesis
    unfolding consistent_def by (simp add: led red) blast
qed

lemma consistent_start_voting:
  assumes "consistent H st" "fresh st (StartVoting sid voting gen clock)"
  shows "consistent H (snd (start_voting rnd st sid voting gen clock))"
proof (cases "isl (fst (start_voting rnd st sid voting gen clock))")
  case True
  then have "snd (start_voting rnd st sid voting gen clock) = st"
    by (simp add: start_voting_unfold split: option.splits if_splits)
  with assms(1) show ?thesis by simp
next
  case False
  let ?st' = "snd (start_voting rnd st sid voting gen clock)"
  let ?new = "new_entries rnd sid (duration_minutes voting) gen clock 0 (roster st sid)"
  from False have ex: "sessions st sid \<noteq> None" by (simp add: start_voting_opens)
  from assms(2) have
    "fst (issue_tokens rnd sid (duration_minutes voting) gen clock 0 (roster st sid) (tokens st) [])
       = tokens st @ ?new"
    by (intro issue_tokens_fresh) (use False in \<open>simp_all add: drawn_def start_voting_opens\<close>)
  with False have toks: "tokens ?st' = tokens st @ ?new"
    by (simp add: tokens_start_voting)
  have unused: "\<And>t d. (t, d) \<in> set ?new \<Longrightarrow> tk_session_id d = sid \<and> \<not> tk_used d"
    by (rule new_entries_unused)
  have red: "redeemed_for ?st' sid' = redeemed_for st sid'" for sid'
    using unused by (auto simp: redeemed_for_def toks filter_empty_conv)
  have led: "ledger ?st' sid' = ledger st sid'" for sid'
    by (rule ledger_cong) simp
  have dist: "distinct (map fst (tokens ?st'))"
  proof -
    from assms(1) have "distinct (map fst (tokens st))" unfolding consistent_def by blast
    moreover from assms(2) have "distinct (map fst ?new)"
      by (simp add: keys_new_entries drawn_def)
    moreover have "set (map fst (tokens st)) \<inter> set (map fst ?new) = {}"
    proof -
      from assms(2) have "\<forall>t \<in> set (drawn gen (length (roster st sid))). t \<notin> fst ` set (tokens st)"
        by (simp add: list_all_iff map_of_eq_None_iff)
      moreover have "map fst ?new = drawn gen (length (roster st sid))"
        by (simp add: keys_new_entries drawn_def)
      ultimately show ?thesis by auto
    qed
    ultimately show ?thesis by (simp add: toks)
  qed
  have sess: "\<forall>(t, d) \<in> set (tokens ?st'). sessions ?st' (tk_session_id d) \<noteq> None"
    using assms(1) ex unused unfolding consistent_def by (auto simp: toks)
  have act: "\<forall>sid'. active_voting ?st' sid' \<noteq> None \<longrightarrow> sessions ?st' sid' \<noteq> None"
    using assms(1) ex unfolding consistent_def
    by (auto simp: start_voting_unfold split: option.splits if_splits)
  from assms(1) dist sess act show ?thesis
    unfolding consistent_def by (simp add: led red)
qed

lemma redeemed_for_record_vote:
  assumes "map_of (tokens st) tok = Some d" "\<not> tk_used d"
  shows "mset (map (H \<circ> fst) (redeemed_for (record_vote H' st tok d choice ts voted) sid)) =
         (if sid = tk_session_id d then {#H tok#} else {#}) +
         mset (map (H \<circ> fst) (redeemed_for st sid))"
proof -
  from update_split [OF assms(1)] obtain xs ys where
    "tokens st = xs @ (tok, d) # ys"
    "AList.update tok (d\<lparr>tk_used := True, tk_voted_at := Some voted\<rparr>) (tokens st) =
       xs @ (tok, d\<lparr>tk_used := True, tk_voted_at := Some voted\<rparr>) # ys"
    by blast
  with assms(2) show ?thesis by (simp add: redeemed_for_def)
qed

lemma consistent_record_vote:
  assumes "consistent H st" "map_of (tokens st) tok = Some d" "\<not> tk_used d" "valid_choice choice"
  shows "consistent H (record_vote H st tok d choice ts voted)"
proof -
  let ?st' = "record_vote H st tok d choice ts voted"
  from assms(1) have dist: "distinct (map fst (tokens ?st'))"
    unfolding consistent_def by (simp add: AList.distinct_update)
  have keys: "set (tokens ?st') \<subseteq> insert (tok, d\<lparr>tk_used := True, tk_voted_at := Some voted\<rparr>) (set (tokens st))"
    using update_split [OF assms(2), of "d\<lparr>tk_used := True, tk_voted_at := Some voted\<rparr>"]
    by auto
  from assms(2) have "(tok, d) \<in> set (tokens st)" by (rule map_of_SomeD)
  with assms(1) have "sessions st (tk_session_id d) \<noteq> None"
    unfolding consistent_def by auto
  with assms(1) keys have sess: "\<forall>(t, d) \<in> set (tokens ?st'). sessions ?st' (tk_session_id d) \<noteq> None"
    unfolding consistent_def by auto
  have hashes: "mset (map v_token_hash (ledger ?st' sid)) = mset (map (H \<circ> fst) (redeemed_for ?st' sid))"
    for sid
  proof -
    from assms(1) have "mset (map v_token_hash (ledger st sid)) = mset (map (H \<circ> fst) (redeemed_for st sid))"
      unfolding consistent_def by blast
    with redeemed_for_record_vote [OF assms(2,3), of H H choice ts voted sid] show ?thesis
      by (auto simp: ledger_record_vote)
  qed
  have valid: "list_all (\<lambda>v. valid_choice (v_choice v) \<and> v_session_id v = sid) (ledger ?st' sid)" for sid
    using assms(1,4) unfolding consistent_def by (simp add: ledger_record_vote)
  from assms(1) have act: "\<forall>sid. active_voting ?st' sid \<noteq> None \<longrightarrow> sessions ?st' sid \<noteq> None"
    unfolding consistent_def by simp
  from dist sess hashes valid act show ?thesis
    unfolding consistent_def by blast
qed

lemma consistent_submit_vote:
  "consistent H st \<Longrightarrow> consistent H (snd (submit_vote H st tok choice now ts voted))"
  using submit_vote_snd [of H st tok choice now ts voted]
  by (auto intro: consistent_record_vote)

lemma consistent_step: "consistent H st \<Longrightarrow> fresh st ev \<Longrightarrow> consistent H (step rnd H st ev)"
  by (cases ev)
    (simp_all add: consistent_create_session consistent_start_voting consistent_end_voting
      consistent_auto_end_voting consistent_submit_vote del: fresh.simps(2))

lemma consistent_exec: "consistent H st \<Longrightarrow> fresh_run rnd H st evs \<Longrightarrow> consistent H (exec rnd H st evs)"
  by (induction evs arbitrary: st) (simp_all add: consistent_step)

lemma fresh_run_append:
  "fresh_run rnd H st (evs @ evs') \<longleftrightarrow> fresh_run rnd H st evs \<and> fresh_run rnd H (exec rnd H st evs) evs'"
  by (induction evs arbitrary: st) simp_all

lemma exec_append: "exec rnd H st (evs @ evs') = exec rnd H (exec rnd H st evs) evs'"
  by (induction evs arbitrary: st) simp_all

section \<open>The demonstration runs\<close>

lemmas demo_defs =
  demo_open_def demo_closed_def init_storage_def create_session_def start_voting_unfold
  demo_session_def demo_voting_def demo_gen_def demo_clock_def demo_tokens_distinct
  submit_vote_def end_voting_def Let_def ledger_def window_active_def valid_choice_def
  count_one_def zero_count_def choices_distinct demo_hash_def roster_def drawn_def
  fits_float_minute demo_rnd_def float_add_def to_float_def

lemma demo_open_tokens:
  "tokens (exec demo_rnd demo_hash init_storage demo_open) =
     [(demo_token_a, \<lparr>tk_session_id = demo_sid, tk_member_name = ''Ann'', tk_used = False,
                      tk_expires_at = 1360, tk_created_at = 1000, tk_voted_at = None\<rparr>),
      (demo_token_b, \<lparr>tk_session_id = demo_sid, tk_member_name = ''Bob'', tk_used = False,
                      tk_expires_at = 1360, tk_created_at = 1000, tk_voted_at = None\<rparr>)]"
  by (simp add: demo_defs)

lemma demo_open_window: "window_active (exec demo_rnd demo_hash init_storage demo_open) demo_sid"
  by (simp add: demo_defs)

lemma demo_open_ledger: "ledger (exec demo_rnd demo_hash init_storage demo_open) demo_sid = []"
  by (simp add: demo_defs)

lemma demo_open_fresh: "fresh_run demo_rnd demo_hash init_storage demo_open"
  by (simp add: demo_defs)

lemma demo_closed_tokens:
  "tokens (exec demo_rnd demo_hash init_storage demo_closed) =
     [(demo_token_a, \<lparr>tk_session_id = demo_sid, tk_member_name = ''Ann'', tk_used = True,
                      tk_expires_at = 1360, tk_created_at = 1000, tk_voted_at = Some 1001\<rparr>),
      (demo_token_b, \<lparr>tk_session_id = demo_sid, tk_member_name = ''Bob'', tk_used = False,
                      tk_expires_at = 1360, tk_created_at = 1000, tk_voted_at = None\<rparr>)]"
  by (simp add: demo_defs)

lemma demo_closed_window:
  "active_voting (exec demo_rnd demo_hash init_storage demo_closed) demo_sid =
     Some \<lparr>w_presenter_name = ''Ann'', w_topic_title = ''Budget'',
           w_topic_description = ''Approve the budget'', w_start_time = 1000,
           w_end_time = 1060, w_duration_minutes = 1, w_status = Finished,
           w_results = Some \<lparr>c_for = 1, c_against = 0, c_abstain = 1\<rparr>\<rparr>"
  by (simp add: demo_defs)

lemma demo_closed_ledger:
  "ledger (exec demo_rnd demo_hash init_storage demo_closed) demo_sid =
     [\<lparr>v_session_id = demo_sid, v_choice = choice_for, v_timestamp = 1001,
       v_token_hash = demo_hash demo_token_a\<rparr>]"
  by (simp add: demo_open_def demo_closed_def init_storage_def create_session_def start_voting_unfold
  demo_session_def demo_voting_def demo_gen_def demo_clock_def demo_tokens_distinct
  submit_vote_def end_voting_def Let_def ledger_def window_active_def valid_choice_def
  count_one_def zero_count_def choices_distinct roster_def drawn_def
      fits_float_minute demo_rnd_def float_add_def to_float_def)

lemma demo_closed_session:
  "sessions (exec demo_rnd demo_hash init_storage demo_closed) demo_sid =
     Some \<lparr>s_id = demo_sid, s_title = ''Board'', s_description = ''Budget'',
           s_created_at = ''2024-01-01T10:00:00'', s_status = Completed\<rparr>"
  by (simp add: demo_defs)

lemma demo_closed_fresh: "fresh_run demo_rnd demo_hash init_storage demo_closed"
  by (simp add: demo_defs)

section \<open>Ledgers hold admissible choices\<close>

lemma valid_ledgers_init: "valid_ledgers init_storage"
  by (simp add: valid_ledgers_def init_storage_def ledger_def)

lemma valid_ledgers_step: "valid_ledgers st \<Longrightarrow> valid_ledgers (step rnd H st ev)"
proof (cases ev)
  case (CreateSession sid created_at session)
  assume "valid_ledgers st"
  then show ?thesis using CreateSession
    by (simp add: valid_ledgers_def ledger_def)
next
  case (StartVoting sid voting gen clock)
  assume "valid_ledgers st"
  then show ?thesis using StartVoting
    by (simp add: valid_ledgers_def ledger_def)
next
  case (EndVoting sid)
  assume "valid_ledgers st"
  then show ?thesis using EndVoting
    by (simp add: valid_ledgers_def ledger_def)
next
  case (AutoEndVoting sid)
  assume "valid_ledgers st"
  then show ?thesis using AutoEndVoting
    by (simp add: valid_ledgers_def ledger_def)
next
  case (SubmitVote tok choice now ts voted)
  assume v: "valid_ledgers st"
  from submit_vote_snd [of H st tok choice now ts voted] show ?thesis
  proof
    assume "snd (submit_vote H st tok choice now ts voted) = st"
    with v SubmitVote show ?thesis by simp
  next
    assume "\<exists>d. map_of (tokens st) tok = Some d \<and> \<not> tk_used d \<and>
        window_active st (tk_session_id d) \<and> valid_choice choice \<and>
        snd (submit_vote H st tok choice now ts voted) = record_vote H st tok d choice ts voted"
    then obtain d where "valid_choice choice"
      "snd (submit_vote H st tok choice now ts voted) = record_vote H st tok d choice ts voted"
      by blast
    with v SubmitVote show ?thesis
      by (simp add: valid_ledgers_def ledger_record_vote)
  qed
qed

lemma valid_ledgers_exec: "valid_ledgers st \<Longrightarrow> valid_ledgers (exec rnd H st evs)"
  by (induction evs arbitrary: st) (simp_all add: valid_ledgers_step)

lemma valid_ledgers_reachable:
  "list_all (\<lambda>v. valid_choice (v_choice v)) (ledger (exec rnd H init_storage evs) sid)"
  using valid_ledgers_exec [OF valid_ledgers_init, of rnd H evs] by (simp add: valid_ledgers_def)

section \<open>Failed submissions\<close>

lemma submit_vote_fails:
  assumes "valid_ledgers st" "submit_vote H st tok choice now ts voted = (Inl e, st')"
  shows "st' = st \<and> e \<in> {TokenNotFound, AlreadyUsed, Expired, InvalidState, InvalidChoice}"
proof (cases "map_of (tokens st) tok")
  case None
  with assms(2) show ?thesis by (simp add: submit_vote_unfold)
next
  case (Some d)
  show ?thesis
  proof (cases "tk_used d \<or> now > tk_expires_at d \<or> \<not> window_active st (tk_session_id d)")
    case True
    with Some assms(2) show ?thesis
      by (auto simp: submit_vote_unfold guard_error_def split: if_splits)
  next
    case guards: False
    show ?thesis
    proof (cases "valid_choice choice")
      case False
      with guards Some assms(2) show ?thesis by (auto simp: submit_vote_unfold)
    next
      case True
      from assms(1) have "list_all (\<lambda>v. valid_choice (v_choice v)) (ledger st (tk_session_id d))"
        by (simp add: valid_ledgers_def)
      with Some guards True
      have "submit_vote H st tok choice now ts voted = (Inr (), record_vote H st tok d choice ts voted)"
        by (intro submit_vote_accepts) auto
      with assms(2) show ?thesis by simp
    qed
  qed
qed

text \<open>
  Claim C7. Whenever \<open>submit_vote\<close> fails it returns the error of the first guard that
  does not hold, in source order (unknown token, token already used, token expired,
  voting not active, inadmissible choice), and leaves the storage as it was: the ledger
  and the token's \<open>used\<close> flag in particular. In a storage the engine can reach, these
  five are the only failures.
\<close>

theorem submit_vote_failure_mutates_nothing:
  "(map_of (tokens (exec rnd H init_storage evs)) tok = None \<longrightarrow>
      submit_vote H (exec rnd H init_storage evs) tok choice now ts voted
        = (Inl TokenNotFound, exec rnd H init_storage evs)) \<and>
   (\<forall>d. map_of (tokens (exec rnd H init_storage evs)) tok = Some d \<longrightarrow>
      (tk_used d \<longrightarrow>
         submit_vote H (exec rnd H init_storage evs) tok choice now ts voted
           = (Inl AlreadyUsed, exec rnd H init_storage evs)) \<and>
      (\<not> tk_used d \<and> now > tk_expires_at d \<longrightarrow>
         submit_vote H (exec rnd H init_storage evs) tok choice now ts voted
           = (Inl Expired, exec rnd H init_storage evs)) \<and>
      (\<not> tk_used d \<and> \<not> now > tk_expires_at d \<and>
       \<not> window_active (exec rnd H init_storage evs) (tk_session_id d) \<longrightarrow>
         submit_vote H (exec rnd H init_storage evs) tok choice now ts voted
           = (Inl InvalidState, exec rnd H init_storage evs)) \<and>
      (\<not> tk_used d \<and> \<not> now > tk_expires_at d \<and>
       window_active (exec rnd H init_storage evs) (tk_session_id d) \<and> \<not> valid_choice choice \<longrightarrow>
         submit_vote H (exec rnd H init_storage evs) tok choice now ts voted
           = (Inl InvalidChoice, exec rnd H init_storage evs))) \<and>
   (\<forall>e st'. submit_vote H (exec rnd H init_storage evs) tok choice now ts voted = (Inl e, st') \<longrightarrow>
      st' = exec rnd H init_storage evs \<and>
      ledger st' = ledger (exec rnd H init_storage evs) \<and>
      tokens st' = tokens (exec rnd H init_storage evs) \<and>
      e \<in> {TokenNotFound, AlreadyUsed, Expired, InvalidState, InvalidChoice})"
proof -
  let ?st = "exec rnd H init_storage evs"
  have v: "valid_ledgers ?st" by (rule valid_ledgers_exec [OF valid_ledgers_init])
  have 1: "map_of (tokens ?st) tok = None \<longrightarrow>
      submit_vote H ?st tok choice now ts voted = (Inl TokenNotFound, ?st)"
    by (simp add: submit_vote_unfold)
  have 2: "\<forall>d. map_of (tokens ?st) tok = Some d \<longrightarrow>
      (tk_used d \<longrightarrow> submit_vote H ?st tok choice now ts voted = (Inl AlreadyUsed, ?st)) \<and>
      (\<not> tk_used d \<and> now > tk_expires_at d \<longrightarrow>
         submit_vote H ?st tok choice now ts voted = (Inl Expired, ?st)) \<and>
      (\<not> tk_used d \<and> \<not> now > tk_expires_at d \<and> \<not> window_active ?st (tk_session_id d) \<longrightarrow>
         submit_vote H ?st tok choice now ts voted = (Inl InvalidState, ?st)) \<and>
      (\<not> tk_used d \<and> \<not> now > tk_expires_at d \<and>
       window_active ?st (tk_session_id d) \<and> \<not> valid_choice choice \<longrightarrow>
         submit_vote H ?st tok choice now ts voted = (Inl InvalidChoice, ?st))"
    by (simp add: submit_vote_unfold guard_error_def)
  have 3: "\<forall>e st'. submit_vote H ?st tok choice now ts voted = (Inl e, st') \<longrightarrow>
      st' = ?st \<and> ledger st' = ledger ?st \<and> tokens st' = tokens ?st \<and>
      e \<in> {TokenNotFound, AlreadyUsed, Expired, InvalidState, InvalidChoice}"
    using submit_vote_fails [OF v] by blast
  show ?thesis by (rule conjI [OF 1 conjI [OF 2 3]])
qed

theorem submit_vote_failure_mutates_nothing_witness:
  "map_of (tokens (exec demo_rnd demo_hash init_storage demo_closed)) demo_token_a
     = Some \<lparr>tk_session_id = demo_sid, tk_member_name = ''Ann'', tk_used = True,
             tk_expires_at = 1360, tk_created_at = 1000, tk_voted_at = Some 1001\<rparr> \<and>
   submit_vote demo_hash (exec demo_rnd demo_hash init_storage demo_closed) demo_token_a choice_against 1002 1002 1002
     = (Inl AlreadyUsed, exec demo_rnd demo_hash init_storage demo_closed) \<and>
   map_of (tokens (exec demo_rnd demo_hash init_storage demo_closed)) demo_token_c = None \<and>
   submit_vote demo_hash (exec demo_rnd demo_hash init_storage demo_closed) demo_token_c choice_against 1002 1002 1002
     = (Inl TokenNotFound, exec demo_rnd demo_hash init_storage demo_closed)"
proof -
  let ?st = "exec demo_rnd demo_hash init_storage demo_closed"
  let ?d = "\<lparr>tk_session_id = demo_sid, tk_member_name = ''Ann'', tk_used = True,
             tk_expires_at = 1360, tk_created_at = 1000, tk_voted_at = Some 1001\<rparr>"
  have a: "map_of (tokens ?st) demo_token_a = Some ?d"
    by (simp add: demo_closed_tokens)
  have c: "map_of (tokens ?st) demo_token_c = None"
    by (simp add: demo_closed_tokens demo_tokens_distinct)
  note A = submit_vote_failure_mutates_nothing
    [of demo_rnd demo_hash demo_closed demo_token_a choice_against 1002 1002 1002]
  note C = submit_vote_failure_mutates_nothing
    [of demo_rnd demo_hash demo_closed demo_token_c choice_against 1002 1002 1002]
  from A have "\<forall>d. map_of (tokens ?st) demo_token_a = Some d \<longrightarrow>
      (tk_used d \<longrightarrow> submit_vote demo_hash ?st demo_token_a choice_against 1002 1002 1002
           = (Inl AlreadyUsed, ?st))"
    by blast
  with a have ra: "submit_vote demo_hash ?st demo_token_a choice_against 1002 1002 1002
           = (Inl AlreadyUsed, ?st)" by simp
  from C c have rc: "submit_vote demo_hash ?st demo_token_c choice_against 1002 1002 1002
           = (Inl TokenNotFound, ?st)" by blast
  from a ra c rc show ?thesis by blast
qed

section \<open>Closing a window\<close>

text \<open>
  Claim C6. The result of \<open>end_voting\<close> is the tally of the specification applied to the
  session's ledger and the number of the session's tokens that are not used at that
  moment: \<open>for\<close> and \<open>against\<close> count ledger entries only, \<open>abstain\<close> counts the explicit
  abstentions plus one for each outstanding token. The same count is stored as the
  window's results. (The three hypotheses say that the call gets past its guard and its
  dictionary subscripts; they hold whenever a window has been opened.)
\<close>

theorem end_voting_tally:
  assumes "active_voting st sid = Some w" "sessions st sid = Some sess"
    "list_all (\<lambda>v. valid_choice (v_choice v)) (ledger st sid)"
  shows "fst (end_voting st sid) = Inr (tally (ledger st sid) (length (outstanding_for st sid))) \<and>
         active_voting (snd (end_voting st sid)) sid =
           Some (w\<lparr>w_status := Finished,
                   w_results := Some (tally (ledger st sid) (length (outstanding_for st sid)))\<rparr>) \<and>
         c_for (tally (ledger st sid) (length (outstanding_for st sid)))
           = int (length (filter (\<lambda>v. v_choice v = choice_for) (ledger st sid))) \<and>
         c_against (tally (ledger st sid) (length (outstanding_for st sid)))
           = int (length (filter (\<lambda>v. v_choice v = choice_against) (ledger st sid))) \<and>
         c_abstain (tally (ledger st sid) (length (outstanding_for st sid)))
           = int (length (filter (\<lambda>v. v_choice v = choice_abstain) (ledger st sid)))
             + int (length (filter (\<lambda>(t, d). tk_session_id d = sid \<and> \<not> tk_used d) (tokens st)))"
proof -
  have t: "(tally (ledger st sid) 0)\<lparr>c_abstain := c_abstain (tally (ledger st sid) 0)
              + int (length (outstanding_for st sid))\<rparr>
           = tally (ledger st sid) (length (outstanding_for st sid))"
    by (simp add: tally_def)
  from assms show ?thesis
    by (simp add: end_voting_def Let_def count_votes_zero count_unused_filter t
        flip: outstanding_for_def) (simp add: tally_def outstanding_for_def)
qed

theorem end_voting_tally_witness:
  "active_voting (exec demo_rnd demo_hash init_storage demo_closed) demo_sid \<noteq> None \<and>
   ledger (exec demo_rnd demo_hash init_storage demo_closed) demo_sid =
     [\<lparr>v_session_id = demo_sid, v_choice = choice_for, v_timestamp = 1001,
       v_token_hash = demo_hash demo_token_a\<rparr>] \<and>
   length (outstanding_for (exec demo_rnd demo_hash init_storage demo_closed) demo_sid) = 1 \<and>
   fst (end_voting (exec demo_rnd demo_hash init_storage demo_closed) demo_sid)
     = Inr \<lparr>c_for = 1, c_against = 0, c_abstain = 1\<rparr>"
proof -
  let ?st = "exec demo_rnd demo_hash init_storage demo_closed"
  have l: "list_all (\<lambda>v. valid_choice (v_choice v)) (ledger ?st demo_sid)"
    by (simp add: demo_closed_ledger valid_choice_def)
  have o: "length (outstanding_for ?st demo_sid) = 1"
    by (simp add: outstanding_for_def demo_closed_tokens)
  have t: "tally (ledger ?st demo_sid) 1 = \<lparr>c_for = 1, c_against = 0, c_abstain = 1\<rparr>"
    by (simp add: demo_closed_ledger tally_def choices_distinct)
  from end_voting_tally [OF demo_closed_window demo_closed_session l] o t
  show ?thesis by (simp add: demo_closed_window demo_closed_ledger)
qed

section \<open>Creating a session\<close>

text \<open>
  Claim C8, as stated, fails: \<open>create_session\<close> has no check of the roster. With an empty
  membership list it succeeds and registers a session with an empty roster.
\<close>

theorem create_session_empty_roster:
  "sm_members empty_session = [] \<and>
   fst (create_session init_storage demo_sid ''2024-01-01T10:00:00'' empty_session) = Inr demo_sid \<and>
   sessions (snd (create_session init_storage demo_sid ''2024-01-01T10:00:00'' empty_session)) demo_sid
     = Some \<lparr>s_id = demo_sid, s_title = ''Board'', s_description = ''Budget'',
             s_created_at = ''2024-01-01T10:00:00'', s_status = Created\<rparr> \<and>
   members (snd (create_session init_storage demo_sid ''2024-01-01T10:00:00'' empty_session)) demo_sid
     = Some []"
  by (simp add: create_session_def empty_session_def init_storage_def)

text \<open>
  Claim C8, amended. \<open>create_session\<close> accepts every roster, the empty one included: it
  never fails, registers the session under the identifier drawn from the UUID generator
  with status \<open>created\<close>, stores the roster as given and initializes an empty ledger;
  tokens and windows are untouched.
\<close>

theorem create_session_any_roster:
  "fst (create_session st sid created_at session) = Inr sid \<and>
   sessions (snd (create_session st sid created_at session)) sid
     = Some \<lparr>s_id = sid, s_title = sm_title session, s_description = sm_description session,
             s_created_at = created_at, s_status = Created\<rparr> \<and>
   members (snd (create_session st sid created_at session)) sid = Some (sm_members session) \<and>
   votes (snd (create_session st sid created_at session)) sid = Some [] \<and>
   ledger (snd (create_session st sid created_at session)) sid = [] \<and>
   tokens (snd (create_session st sid created_at session)) = tokens st \<and>
   active_voting (snd (create_session st sid created_at session)) = active_voting st"
  by (simp add: create_session_def member_rebuild ledger_def)

theorem create_session_any_roster_witness:
  "fst (create_session init_storage demo_sid ''2024-01-01T10:00:00'' demo_session) = Inr demo_sid \<and>
   members (snd (create_session init_storage demo_sid ''2024-01-01T10:00:00'' demo_session)) demo_sid
     = Some [\<lparr>m_name = ''Ann'', m_contact = ''ann@example.org''\<rparr>,
             \<lparr>m_name = ''Bob'', m_contact = ''bob@example.org''\<rparr>] \<and>
   ledger (snd (create_session init_storage demo_sid ''2024-01-01T10:00:00'' demo_session)) demo_sid = []"
  using create_session_any_roster [of init_storage demo_sid "''2024-01-01T10:00:00''" demo_session]
  by (simp add: demo_session_def)

section \<open>Closing twice\<close>

text \<open>
  Claim C3, evaluated on the code: on a session whose window has just been closed, a
  second \<open>end_voting\<close> passes the guard (the window is still a key of
  \<open>storage.active_voting\<close>, with status \<open>completed\<close>) and returns the recomputed results
  once more instead of an error. The results themselves are the same as the first time.
\<close>

theorem end_voting_twice:
  "fst (end_voting (exec demo_rnd demo_hash init_storage demo_open) demo_sid)
     = Inr \<lparr>c_for = 0, c_against = 0, c_abstain = 2\<rparr> \<and>
   \<not> window_active (snd (end_voting (exec demo_rnd demo_hash init_storage demo_open) demo_sid)) demo_sid \<and>
   fst (end_voting (snd (end_voting (exec demo_rnd demo_hash init_storage demo_open) demo_sid)) demo_sid)
     = Inr \<lparr>c_for = 0, c_against = 0, c_abstain = 2\<rparr>"
  by (simp add: demo_defs)

section \<open>Opening a window\<close>

text \<open>
  Claim C2, as stated, fails: \<open>start_voting\<close> does not look at \<open>storage.active_voting\<close>.
  On a session whose window is active it succeeds and issues two more tokens.
\<close>

theorem start_voting_while_active:
  "window_active (exec demo_rnd demo_hash init_storage demo_open) demo_sid \<and>
   map fst (tokens (exec demo_rnd demo_hash init_storage demo_open)) = [demo_token_a, demo_token_b] \<and>
   \<not> isl (fst (start_voting demo_rnd (exec demo_rnd demo_hash init_storage demo_open) demo_sid
                 demo_voting demo_regen demo_clock)) \<and>
   fst (start_voting demo_rnd (exec demo_rnd demo_hash init_storage demo_open) demo_sid
                 demo_voting demo_regen demo_clock) \<noteq> Inl InvalidState \<and>
   map fst (tokens (snd (start_voting demo_rnd (exec demo_rnd demo_hash init_storage demo_open)
                 demo_sid demo_voting demo_regen demo_clock)))
     = [demo_token_a, demo_token_b, demo_token_c, demo_token_d]"
  by (simp add: demo_defs demo_regen_def)

text \<open>
  Claim C2, amended. \<open>start_voting\<close> has no guard on the window. It fails for an unknown
  session (\<open>SessionNotFound\<close>) and, on a registered session, for a duration whose seconds
  do not fit a float (\<open>OverflowError\<close>); both change nothing. Otherwise, on every
  registered session, whether or not it has a window and whatever the window's status,
  it succeeds: it returns one token per roster member, writes them to the token store,
  overwrites the session's window with a new active one built from the request, and
  sets the session's status to \<open>voting\<close>; nothing else changes. When the drawn tokens
  are fresh, what is written to the token store is one new unused token of the session
  per roster member, after the tokens already there.
\<close>

theorem start_voting_no_window_guard:
  "(sessions st sid = None \<longrightarrow>
      start_voting rnd st sid voting gen clock = (Inl SessionNotFound, st)) \<and>
   (\<forall>sess ms. sessions st sid = Some sess \<and> members st sid = Some ms \<and>
        \<not> fits_float (duration_minutes voting * 60) \<longrightarrow>
      start_voting rnd st sid voting gen clock = (Inl OverflowError, st)) \<and>
   (\<forall>sess ms. sessions st sid = Some sess \<and> members st sid = Some ms \<and>
        fits_float (duration_minutes voting * 60) \<longrightarrow>
      \<not> isl (fst (start_voting rnd st sid voting gen clock)) \<and>
      map it_token (sr_tokens (projr (fst (start_voting rnd st sid voting gen clock))))
        = drawn gen (length ms) \<and>
      sr_voting_ends_at (projr (fst (start_voting rnd st sid voting gen clock)))
        = float_add rnd (clock (2 * length ms)) (to_float rnd (duration_minutes voting * 60)) \<and>
      snd (start_voting rnd st sid voting gen clock) =
        st\<lparr>tokens := fst (issue_tokens rnd sid (duration_minutes voting) gen clock 0 ms (tokens st) []),
           active_voting := (active_voting st)(sid \<mapsto>
              \<lparr>w_presenter_name = presenter_name voting,
               w_topic_title = topic_title voting,
               w_topic_description = topic_description voting,
               w_start_time = clock (2 * length ms + 1),
               w_end_time = float_add rnd (clock (2 * length ms))
                              (to_float rnd (duration_minutes voting * 60)),
               w_duration_minutes = duration_minutes voting,
               w_status = Active,
               w_results = None\<rparr>),
           sessions := (sessions st)(sid \<mapsto> sess\<lparr>s_status := Voting\<rparr>)\<rparr> \<and>
      window_active (snd (start_voting rnd st sid voting gen clock)) sid) \<and>
   (\<forall>ms. members st sid = Some ms \<and> fits_float (duration_minutes voting * 60) \<and>
        fresh st (StartVoting sid voting gen clock) \<longrightarrow>
      fst (issue_tokens rnd sid (duration_minutes voting) gen clock 0 ms (tokens st) [])
        = tokens st @ new_entries rnd sid (duration_minutes voting) gen clock 0 ms \<and>
      map fst (new_entries rnd sid (duration_minutes voting) gen clock 0 ms)
        = drawn gen (length ms) \<and>
      list_all (\<lambda>(t, d). tk_session_id d = sid \<and> \<not> tk_used d)
        (new_entries rnd sid (duration_minutes voting) gen clock 0 ms))"
proof -
  have 1: "sessions st sid = None \<longrightarrow>
      start_voting rnd st sid voting gen clock = (Inl SessionNotFound, st)"
    by (simp add: start_voting_unfold)
  have 2: "\<forall>sess ms. sessions st sid = Some sess \<and> members st sid = Some ms \<and>
        \<not> fits_float (duration_minutes voting * 60) \<longrightarrow>
      start_voting rnd st sid voting gen clock = (Inl OverflowError, st)"
    by (simp add: start_voting_unfold)
  have 3: "\<not> isl (fst (start_voting rnd st sid voting gen clock)) \<and>
      map it_token (sr_tokens (projr (fst (start_voting rnd st sid voting gen clock))))
        = drawn gen (length ms) \<and>
      sr_voting_ends_at (projr (fst (start_voting rnd st sid voting gen clock)))
        = float_add rnd (clock (2 * length ms)) (to_float rnd (duration_minutes voting * 60)) \<and>
      snd (start_voting rnd st sid voting gen clock) =
        st\<lparr>tokens := fst (issue_tokens rnd sid (duration_minutes voting) gen clock 0 ms (tokens st) []),
           active_voting := (active_voting st)(sid \<mapsto>
              \<lparr>w_presenter_name = presenter_name voting,
               w_topic_title = topic_title voting,
               w_topic_description = topic_description voting,
               w_start_time = clock (2 * length ms + 1),
               w_end_time = float_add rnd (clock (2 * length ms))
                              (to_float rnd (duration_minutes voting * 60)),
               w_duration_minutes = duration_minutes voting,
               w_status = Active,
               w_results = None\<rparr>),
           sessions := (sessions st)(sid \<mapsto> sess\<lparr>s_status := Voting\<rparr>)\<rparr> \<and>
      window_active (snd (start_voting rnd st sid voting gen clock)) sid"
    if a: "sessions st sid = Some sess \<and> members st sid = Some ms \<and>
        fits_float (duration_minutes voting * 60)" for sess ms
  proof -
    from a have s: "sessions st sid = Some sess" and m: "members st sid = Some ms"
      and fit: "fits_float (duration_minutes voting * 60)" by blast+
    from issue_tokens_issued [OF fit, of rnd sid gen clock 0 ms "tokens st" "[]"]
    obtain issued where issued:
      "snd (issue_tokens rnd sid (duration_minutes voting) gen clock 0 ms (tokens st) []) = Inr issued"
      "map it_token issued = drawn gen (length ms)"
      by (auto simp: drawn_def)
    from s m fit issued show ?thesis
      by (simp add: start_voting_unfold window_active_def)
  qed
  have 4: "fst (issue_tokens rnd sid (duration_minutes voting) gen clock 0 ms (tokens st) [])
        = tokens st @ new_entries rnd sid (duration_minutes voting) gen clock 0 ms \<and>
      map fst (new_entries rnd sid (duration_minutes voting) gen clock 0 ms)
        = drawn gen (length ms) \<and>
      list_all (\<lambda>(t, d). tk_session_id d = sid \<and> \<not> tk_used d)
        (new_entries rnd sid (duration_minutes voting) gen clock 0 ms)"
    if a: "members st sid = Some ms \<and> fits_float (duration_minutes voting * 60) \<and>
        fresh st (StartVoting sid voting gen clock)" for ms
  proof -
    from a have m: "members st sid = Some ms"
      and fit: "fits_float (duration_minutes voting * 60)"
      and f: "fresh st (StartVoting sid voting gen clock)" by blast+
    from m have r: "roster st sid = ms" by (simp add: roster_def)
    from f r have toks:
      "fst (issue_tokens rnd sid (duration_minutes voting) gen clock 0 ms (tokens st) [])
         = tokens st @ new_entries rnd sid (duration_minutes voting) gen clock 0 ms"
      by (intro issue_tokens_fresh [OF fit]) (simp_all add: drawn_def)
    have unused: "list_all (\<lambda>(t, d). tk_session_id d = sid \<and> \<not> tk_used d)
        (new_entries rnd sid (duration_minutes voting) gen clock 0 ms)"
      using new_entries_unused [of _ _ rnd sid "duration_minutes voting" gen clock 0 ms]
      by (auto simp: list_all_iff)
    from toks unused show ?thesis
      by (simp add: keys_new_entries drawn_def)
  qed
  from 3 have all3: "\<forall>sess ms. sessions st sid = Some sess \<and> members st sid = Some ms \<and>
        fits_float (duration_minutes voting * 60) \<longrightarrow>
      \<not> isl (fst (start_voting rnd st sid voting gen clock)) \<and>
      map it_token (sr_tokens (projr (fst (start_voting rnd st sid voting gen clock))))
        = drawn gen (length ms) \<and>
      sr_voting_ends_at (projr (fst (start_voting rnd st sid voting gen clock)))
        = float_add rnd (clock (2 * length ms)) (to_float rnd (duration_minutes voting * 60)) \<and>
      snd (start_voting rnd st sid voting gen clock) =
        st\<lparr>tokens := fst (issue_tokens rnd sid (duration_minutes voting) gen clock 0 ms (tokens st) []),
           active_voting := (active_voting st)(sid \<mapsto>
              \<lparr>w_presenter_name = presenter_name voting,
               w_topic_title = topic_title voting,
               w_topic_description = topic_description voting,
               w_start_time = clock (2 * length ms + 1),
               w_end_time = float_add rnd (clock (2 * length ms))
                              (to_float rnd (duration_minutes voting * 60)),
               w_duration_minutes = duration_minutes voting,
               w_status = Active,
               w_results = None\<rparr>),
           sessions := (sessions st)(sid \<mapsto> sess\<lparr>s_status := Voting\<rparr>)\<rparr> \<and>
      window_active (snd (start_voting rnd st sid voting gen clock)) sid"
    by (intro allI impI)
  from 4 have all4: "\<forall>ms. members st sid = Some ms \<and> fits_float (duration_minutes voting * 60) \<and>
        fresh st (StartVoting sid voting gen clock) \<longrightarrow>
      fst (issue_tokens rnd sid (duration_minutes voting) gen clock 0 ms (tokens st) [])
        = tokens st @ new_entries rnd sid (duration_minutes voting) gen clock 0 ms \<and>
      map fst (new_entries rnd sid (duration_minutes voting) gen clock 0 ms)
        = drawn gen (length ms) \<and>
      list_all (\<lambda>(t, d). tk_session_id d = sid \<and> \<not> tk_used d)
        (new_entries rnd sid (duration_minutes voting) gen clock 0 ms)"
    by (intro allI impI)
  show ?thesis by (rule conjI [OF 1 conjI [OF 2 conjI [OF all3 all4]]])
qed

theorem start_voting_no_window_guard_witness:
  "window_active (exec demo_rnd demo_hash init_storage demo_open) demo_sid \<and>
   fits_float (duration_minutes demo_voting * 60) \<and>
   fresh (exec demo_rnd demo_hash init_storage demo_open)
     (StartVoting demo_sid demo_voting demo_regen demo_clock) \<and>
   \<not> isl (fst (start_voting demo_rnd (exec demo_rnd demo_hash init_storage demo_open) demo_sid
                 demo_voting demo_regen demo_clock)) \<and>
   map fst (tokens (snd (start_voting demo_rnd (exec demo_rnd demo_hash init_storage demo_open)
                 demo_sid demo_voting demo_regen demo_clock)))
     = [demo_token_a, demo_token_b, demo_token_c, demo_token_d] \<and>
   active_voting (snd (start_voting demo_rnd (exec demo_rnd demo_hash init_storage demo_open)
                 demo_sid demo_voting demo_regen demo_clock)) demo_sid
     = Some \<lparr>w_presenter_name = ''Ann'', w_topic_title = ''Budget'',
             w_topic_description = ''Approve the budget'', w_start_time = 1000,
             w_end_time = 1060, w_duration_minutes = 1, w_status = Active,
             w_results = None\<rparr>"
proof -
  let ?st = "exec demo_rnd demo_hash init_storage demo_open"
  let ?sess = "\<lparr>s_id = demo_sid, s_title = ''Board'', s_description = ''Budget'',
           s_created_at = ''2024-01-01T10:00:00'', s_status = Voting\<rparr>"
  let ?ms = "sm_members demo_session"
  have s: "sessions ?st demo_sid = Some ?sess"
    by (simp add: demo_defs)
  have m: "members ?st demo_sid = Some ?ms"
    by (simp add: demo_defs)
  have fit: "fits_float (duration_minutes demo_voting * 60)"
    by (simp add: demo_voting_def fits_float_minute)
  have f: "fresh ?st (StartVoting demo_sid demo_voting demo_regen demo_clock)"
    by (simp add: roster_def m drawn_def demo_open_tokens demo_session_def demo_regen_def
        demo_tokens_distinct)
  note T = start_voting_no_window_guard [of ?st demo_sid demo_rnd demo_voting demo_regen demo_clock]
  from T s m fit
  have ok: "\<not> isl (fst (start_voting demo_rnd ?st demo_sid demo_voting demo_regen demo_clock))"
    and post: "snd (start_voting demo_rnd ?st demo_sid demo_voting demo_regen demo_clock) =
        ?st\<lparr>tokens := fst (issue_tokens demo_rnd demo_sid (duration_minutes demo_voting)
                    demo_regen demo_clock 0 ?ms (tokens ?st) []),
           active_voting := (active_voting ?st)(demo_sid \<mapsto>
              \<lparr>w_presenter_name = presenter_name demo_voting,
               w_topic_title = topic_title demo_voting,
               w_topic_description = topic_description demo_voting,
               w_start_time = demo_clock (2 * length ?ms + 1),
               w_end_time = float_add demo_rnd (demo_clock (2 * length ?ms))
                              (to_float demo_rnd (duration_minutes demo_voting * 60)),
               w_duration_minutes = duration_minutes demo_voting,
               w_status = Active,
               w_results = None\<rparr>),
           sessions := (sessions ?st)(demo_sid \<mapsto> ?sess\<lparr>s_status := Voting\<rparr>)\<rparr>"
    by blast+
  from T m fit f
  have toks: "fst (issue_tokens demo_rnd demo_sid (duration_minutes demo_voting)
                    demo_regen demo_clock 0 ?ms (tokens ?st) [])
      = tokens ?st @ new_entries demo_rnd demo_sid (duration_minutes demo_voting)
                    demo_regen demo_clock 0 ?ms"
    and keys: "map fst (new_entries demo_rnd demo_sid (duration_minutes demo_voting)
                    demo_regen demo_clock 0 ?ms) = drawn demo_regen (length ?ms)"
    by blast+
  from ok post toks keys f fit demo_open_window show ?thesis
    by (simp add: demo_open_tokens drawn_def demo_session_def demo_regen_def demo_voting_def
        demo_clock_def demo_rnd_def float_add_def to_float_def)
qed

section \<open>Submitting after the close\<close>

text \<open>A closed window stays closed until \<open>start_voting\<close> succeeds on the session again.\<close>

lemma start_voting_fails:
  "isl (fst (start_voting rnd st sid voting gen clock)) \<Longrightarrow>
   snd (start_voting rnd st sid voting gen clock) = st"
  by (simp add: start_voting_unfold split: option.splits if_splits)

lemma active_voting_start_voting_other:
  "sid' \<noteq> sid \<Longrightarrow>
   active_voting (snd (start_voting rnd st sid' voting gen clock)) sid = active_voting st sid"
  by (simp add: start_voting_unfold split: option.splits if_splits)

lemma closed_end_voting:
  "window_closed st sid \<Longrightarrow> window_closed (snd (end_voting st sid')) sid"
  by (simp add: window_closed_def end_voting_def Let_def split: option.splits)

lemma closed_step:
  assumes "window_closed st sid" "\<not> opens rnd st ev sid"
  shows "window_closed (step rnd H st ev) sid"
proof (cases ev)
  case (CreateSession sid' created_at session)
  with assms(1) show ?thesis by (simp add: window_closed_def)
next
  case (StartVoting sid' voting gen clock)
  show ?thesis
  proof (cases "isl (fst (start_voting rnd st sid' voting gen clock))")
    case True
    with assms(1) StartVoting show ?thesis by (simp add: start_voting_fails)
  next
    case False
    with assms(2) StartVoting have "sid' \<noteq> sid" by simp
    with assms(1) StartVoting show ?thesis
      by (simp add: window_closed_def active_voting_start_voting_other)
  qed
next
  case (EndVoting sid')
  with assms(1) show ?thesis by (simp add: closed_end_voting)
next
  case (AutoEndVoting sid')
  with assms(1) show ?thesis
    by (simp add: auto_end_voting_def closed_end_voting split: option.splits)
next
  case (SubmitVote tok choice now ts voted)
  from submit_vote_snd [of H st tok choice now ts voted] assms(1) SubmitVote
  show ?thesis by (auto simp: window_closed_def)
qed

lemma closed_exec:
  "window_closed st sid \<Longrightarrow> windows_opened rnd H st evs sid = 0 \<Longrightarrow>
   window_closed (exec rnd H st evs) sid"
proof (induction evs arbitrary: st)
  case Nil
  then show ?case by simp
next
  case (Cons ev evs)
  from Cons.prems(2) have no: "\<not> opens rnd st ev sid"
    and rest: "windows_opened rnd H (step rnd H st ev) evs sid = 0"
    by (simp_all split: if_splits)
  from closed_step [OF Cons.prems(1) no] have "window_closed (step rnd H st ev) sid" .
  from Cons.IH [OF this rest] show ?case by simp
qed

lemma submit_vote_closed:
  assumes "window_closed st (tk_session_id d)" "map_of (tokens st) tok = Some d"
  shows "submit_vote H st tok choice now ts voted = (Inl (guard_error d now), st)"
  using assms
  by (auto simp: submit_vote_unfold window_closed_def window_active_def split: option.splits)

text \<open>The closed session of \<open>demo_closed\<close>, some requests later, and with a new window.\<close>

lemma demo_closed_is_closed:
  "window_closed (exec demo_rnd demo_hash init_storage demo_closed) demo_sid"
  by (simp add: window_closed_def demo_closed_window)

lemma demo_after_close_state:
  "exec demo_rnd demo_hash (exec demo_rnd demo_hash init_storage demo_closed) demo_after_close
     = exec demo_rnd demo_hash init_storage demo_closed"
  by (simp add: demo_after_close_def demo_defs)

lemma demo_after_close_opens:
  "windows_opened demo_rnd demo_hash (exec demo_rnd demo_hash init_storage demo_closed)
     demo_after_close demo_sid = 0"
  by (simp add: demo_after_close_def)

lemma demo_reopened_tokens:
  "tokens (exec demo_rnd demo_hash init_storage demo_reopened) =
     [(demo_token_a, \<lparr>tk_session_id = demo_sid, tk_member_name = ''Ann'', tk_used = True,
                      tk_expires_at = 1360, tk_created_at = 1000, tk_voted_at = Some 1001\<rparr>),
      (demo_token_b, \<lparr>tk_session_id = demo_sid, tk_member_name = ''Bob'', tk_used = False,
                      tk_expires_at = 1360, tk_created_at = 1000, tk_voted_at = None\<rparr>),
      (demo_token_c, \<lparr>tk_session_id = demo_sid, tk_member_name = ''Ann'', tk_used = False,
                      tk_expires_at = 1360, tk_created_at = 1000, tk_voted_at = None\<rparr>),
      (demo_token_d, \<lparr>tk_session_id = demo_sid, tk_member_name = ''Bob'', tk_used = False,
                      tk_expires_at = 1360, tk_created_at = 1000, tk_voted_at = None\<rparr>)]"
  by (simp add: demo_reopened_def demo_defs demo_regen_def)

lemma demo_reopened_ledger:
  "length (ledger (exec demo_rnd demo_hash init_storage demo_reopened) demo_sid) = 1"
  by (simp add: demo_reopened_def demo_defs demo_regen_def)

lemma demo_reopened_window:
  "window_active (exec demo_rnd demo_hash init_storage demo_reopened) demo_sid"
  by (simp add: demo_reopened_def demo_defs demo_regen_def)

text \<open>
  Claim C5, as stated, fails in two ways. The guards on the token come before the guard
  on the window, so a redeemed token presented after the close is answered with
  \<open>AlreadyUsed\<close>, not \<open>InvalidState\<close>. And the closed state is not terminal:
  \<open>start_voting\<close> on the closed session opens a window again, and then an unredeemed,
  unexpired token of the window that was closed is accepted and its vote appended.
\<close>

theorem submit_vote_after_close_not_refused:
  "window_closed (exec demo_rnd demo_hash init_storage demo_closed) demo_sid \<and>
   map_of (tokens (exec demo_rnd demo_hash init_storage demo_closed)) demo_token_a =
     Some \<lparr>tk_session_id = demo_sid, tk_member_name = ''Ann'', tk_used = True,
           tk_expires_at = 1360, tk_created_at = 1000, tk_voted_at = Some 1001\<rparr> \<and>
   fst (submit_vote demo_hash (exec demo_rnd demo_hash init_storage demo_closed) demo_token_a
          choice_against 1002 1002 1002) = Inl AlreadyUsed \<and>
   fst (submit_vote demo_hash (exec demo_rnd demo_hash init_storage demo_closed) demo_token_a
          choice_against 1002 1002 1002) \<noteq> Inl InvalidState \<and>
   demo_reopened = demo_closed @ [StartVoting demo_sid demo_voting demo_regen demo_clock] \<and>
   length (ledger (exec demo_rnd demo_hash init_storage demo_reopened) demo_sid) = 1 \<and>
   fst (submit_vote demo_hash (exec demo_rnd demo_hash init_storage demo_reopened) demo_token_b
          choice_against 1100 1100 1100) = Inr () \<and>
   length (ledger (snd (submit_vote demo_hash (exec demo_rnd demo_hash init_storage demo_reopened)
          demo_token_b choice_against 1100 1100 1100)) demo_sid) = 2"
proof -
  let ?st = "exec demo_rnd demo_hash init_storage demo_closed"
  let ?re = "exec demo_rnd demo_hash init_storage demo_reopened"
  let ?b = "\<lparr>tk_session_id = demo_sid, tk_member_name = ''Bob'', tk_used = False,
            tk_expires_at = 1360, tk_created_at = 1000, tk_voted_at = None\<rparr>"
  have used: "fst (submit_vote demo_hash ?st demo_token_a choice_against 1002 1002 1002)
      = Inl AlreadyUsed"
    by (simp add: demo_closed_tokens submit_vote_unfold guard_error_def)
  have b: "map_of (tokens ?re) demo_token_b = Some ?b"
    by (simp add: demo_reopened_tokens demo_tokens_distinct)
  have v: "list_all (\<lambda>v. valid_choice (v_choice v)) (ledger ?re (tk_session_id ?b))"
    by (rule valid_ledgers_reachable)
  have "submit_vote demo_hash ?re demo_token_b choice_against 1100 1100 1100
      = (Inr (), record_vote demo_hash ?re demo_token_b ?b choice_against 1100 1100)"
    using b v demo_reopened_window
    by (intro submit_vote_accepts) (simp_all add: valid_choice_def)
  then have acc: "fst (submit_vote demo_hash ?re demo_token_b choice_against 1100 1100 1100) = Inr ()"
    and app: "length (ledger (snd (submit_vote demo_hash ?re demo_token_b choice_against
                1100 1100 1100)) demo_sid) = 2"
    by (simp_all add: ledger_record_vote demo_reopened_ledger)
  from used acc app show ?thesis
    by (simp add: demo_closed_is_closed demo_closed_tokens demo_reopened_ledger)
      (simp add: demo_reopened_def)
qed

text \<open>
  Claim C5, amended. From the moment the window of a session is closed and for as long
  as no window is opened on that session again, every \<open>submit_vote\<close> with a token of the
  session fails and leaves the storage (ledger and token) as it was: with \<open>AlreadyUsed\<close>
  if the token is used, otherwise with \<open>Expired\<close> if the clock is past its expiry, and
  otherwise with \<open>InvalidState\<close>.
\<close>

theorem submit_vote_after_close:
  assumes "window_closed st sid"
    and "windows_opened rnd H st later sid = 0"
    and "map_of (tokens (exec rnd H st later)) tok = Some d" "tk_session_id d = sid"
  shows "submit_vote H (exec rnd H st later) tok choice now ts voted =
           (Inl (if tk_used d then AlreadyUsed
                 else if now > tk_expires_at d then Expired else InvalidState),
            exec rnd H st later)"
proof -
  have "window_closed (exec rnd H st later) (tk_session_id d)"
    unfolding assms(4) by (rule closed_exec [OF assms(1,2)])
  from submit_vote_closed [OF this assms(3)] show ?thesis
    by (simp add: guard_error_def)
qed

theorem submit_vote_after_close_witness:
  "window_closed (exec demo_rnd demo_hash init_storage demo_closed) demo_sid \<and>
   windows_opened demo_rnd demo_hash (exec demo_rnd demo_hash init_storage demo_closed)
     demo_after_close demo_sid = 0 \<and>
   map_of (tokens (exec demo_rnd demo_hash init_storage (demo_closed @ demo_after_close)))
     demo_token_b =
     Some \<lparr>tk_session_id = demo_sid, tk_member_name = ''Bob'', tk_used = False,
           tk_expires_at = 1360, tk_created_at = 1000, tk_voted_at = None\<rparr> \<and>
   submit_vote demo_hash (exec demo_rnd demo_hash init_storage (demo_closed @ demo_after_close))
     demo_token_b choice_for 1003 1003 1003
     = (Inl InvalidState, exec demo_rnd demo_hash init_storage (demo_closed @ demo_after_close)) \<and>
   submit_vote demo_hash (exec demo_rnd demo_hash init_storage (demo_closed @ demo_after_close))
     demo_token_b choice_for 1400 1400 1400
     = (Inl Expired, exec demo_rnd demo_hash init_storage (demo_closed @ demo_after_close)) \<and>
   submit_vote demo_hash (exec demo_rnd demo_hash init_storage (demo_closed @ demo_after_close))
     demo_token_a choice_for 1003 1003 1003
     = (Inl AlreadyUsed, exec demo_rnd demo_hash init_storage (demo_closed @ demo_after_close))"
proof -
  let ?st = "exec demo_rnd demo_hash init_storage demo_closed"
  let ?a = "\<lparr>tk_session_id = demo_sid, tk_member_name = ''Ann'', tk_used = True,
           tk_expires_at = 1360, tk_created_at = 1000, tk_voted_at = Some 1001\<rparr>"
  let ?b = "\<lparr>tk_session_id = demo_sid, tk_member_name = ''Bob'', tk_used = False,
           tk_expires_at = 1360, tk_created_at = 1000, tk_voted_at = None\<rparr>"
  have e: "exec demo_rnd demo_hash init_storage (demo_closed @ demo_after_close) = ?st"
    by (simp only: exec_append demo_after_close_state)
  have a: "map_of (tokens (exec demo_rnd demo_hash ?st demo_after_close)) demo_token_a = Some ?a"
    by (simp add: demo_after_close_state demo_closed_tokens)
  have b: "map_of (tokens (exec demo_rnd demo_hash ?st demo_after_close)) demo_token_b = Some ?b"
    by (simp add: demo_after_close_state demo_closed_tokens demo_tokens_distinct)
  have sa: "tk_session_id ?a = demo_sid" and sb: "tk_session_id ?b = demo_sid" by simp_all
  note T = submit_vote_after_close [OF demo_closed_is_closed demo_after_close_opens]
  from T [OF b sb, of choice_for 1003 1003 1003] T [OF b sb, of choice_for 1400 1400 1400]
    T [OF a sa, of choice_for 1003 1003 1003] b
  show ?thesis
    by (simp add: e demo_after_close_state demo_closed_is_closed demo_after_close_opens)
qed

section \<open>Redeemed tokens stay redeemed\<close>

lemma used_step:
  assumes "map_of (tokens st) tok = Some d" "tk_used d" "fresh st ev"
  shows "map_of (tokens (step rnd H st ev)) tok = Some d"
proof (cases ev)
  case (CreateSession sid created_at session)
  with assms(1) show ?thesis by simp
next
  case (StartVoting sid voting gen clock)
  show ?thesis
  proof (cases "isl (fst (start_voting rnd st sid voting gen clock))")
    case True
    with assms(1) StartVoting show ?thesis by (simp add: tokens_start_voting)
  next
    case False
    from assms(3) StartVoting have
      "fst (issue_tokens rnd sid (duration_minutes voting) gen clock 0 (roster st sid) (tokens st) [])
         = tokens st @ new_entries rnd sid (duration_minutes voting) gen clock 0 (roster st sid)"
      by (intro issue_tokens_fresh) (use False in \<open>simp_all add: drawn_def start_voting_opens\<close>)
    with False assms(1) StartVoting show ?thesis
      by (simp add: tokens_start_voting map_add_def)
  qed
next
  case (EndVoting sid)
  with assms(1) show ?thesis by simp
next
  case (AutoEndVoting sid)
  with assms(1) show ?thesis by simp
next
  case (SubmitVote tok' choice now ts voted)
  from submit_vote_snd [of H st tok' choice now ts voted] show ?thesis
  proof
    assume "snd (submit_vote H st tok' choice now ts voted) = st"
    with assms(1) SubmitVote show ?thesis by simp
  next
    assume "\<exists>d. map_of (tokens st) tok' = Some d \<and> \<not> tk_used d \<and>
        window_active st (tk_session_id d) \<and> valid_choice choice \<and>
        snd (submit_vote H st tok' choice now ts voted) = record_vote H st tok' d choice ts voted"
    then obtain d' where d': "map_of (tokens st) tok' = Some d'" "\<not> tk_used d'"
      "snd (submit_vote H st tok' choice now ts voted) = record_vote H st tok' d' choice ts voted"
      by blast
    with assms(1,2) have "tok' \<noteq> tok" by auto
    with d'(3) assms(1) SubmitVote show ?thesis
      by (simp add: AList.update_conv')
  qed
qed

lemma used_exec:
  "map_of (tokens st) tok = Some d \<Longrightarrow> tk_used d \<Longrightarrow> fresh_run rnd H st evs \<Longrightarrow>
   map_of (tokens (exec rnd H st evs)) tok = Some d"
  by (induction evs arbitrary: st) (simp_all add: used_step)

lemma count_map_filter: "count (mset (map f xs)) y = length (filter (\<lambda>x. f x = y) xs)"
  by (induction xs) auto

lemma one_vote_per_redeemed_token:
  assumes "consistent H st" "map_of (tokens st) tok = Some d" "tk_used d"
    "inj_on H (fst ` set (tokens st))"
  shows "length (filter (\<lambda>v. v_token_hash v = H tok) (ledger st (tk_session_id d))) = 1"
proof -
  let ?sid = "tk_session_id d"
  from assms(1) have dist: "distinct (map fst (tokens st))"
    and hashes: "mset (map v_token_hash (ledger st ?sid)) = mset (map (H \<circ> fst) (redeemed_for st ?sid))"
    unfolding consistent_def by blast+
  have "length (filter (\<lambda>v. v_token_hash v = H tok) (ledger st ?sid))
      = count (mset (map v_token_hash (ledger st ?sid))) (H tok)"
    by (simp only: count_map_filter)
  also have "\<dots> = count (mset (map (H \<circ> fst) (redeemed_for st ?sid))) (H tok)"
    by (simp only: hashes)
  also have "\<dots> = length (filter (\<lambda>(t, d'). H t = H tok \<and> tk_session_id d' = ?sid \<and> tk_used d')
                       (tokens st))"
    by (simp add: count_map_filter redeemed_for_def split_def conj_commute del: mset_map)
  also have "\<dots> = length (filter (\<lambda>(t, d'). t = tok \<and> tk_session_id d' = ?sid \<and> tk_used d')
                       (tokens st))"
  proof -
    from assms(2) have "(tok, d) \<in> set (tokens st)" by (rule map_of_SomeD)
    then have "tok \<in> fst ` set (tokens st)" by (rule image_eqI [rotated]) simp
    with assms(4) have "\<And>t. t \<in> fst ` set (tokens st) \<Longrightarrow> H t = H tok \<longleftrightarrow> t = tok"
      by (auto dest: inj_onD)
    then have "\<And>p. p \<in> set (tokens st) \<Longrightarrow> H (fst p) = H tok \<longleftrightarrow> fst p = tok"
      by (simp add: rev_image_eqI)
    then show ?thesis
      by (intro arg_cong [where f = length] filter_cong) (auto simp: case_prod_beta)
  qed
  also have "\<dots> = 1"
  proof -
    from assms(2) have "(tok, d) \<in> set (tokens st)" by (rule map_of_SomeD)
    then obtain xs ys where split: "tokens st = xs @ (tok, d) # ys"
      by (meson split_list)
    with dist have "tok \<notin> fst ` set xs" "tok \<notin> fst ` set ys" by auto
    then have "filter (\<lambda>(t, d'). t = tok \<and> tk_session_id d' = ?sid \<and> tk_used d') xs = []"
      "filter (\<lambda>(t, d'). t = tok \<and> tk_session_id d' = ?sid \<and> tk_used d') ys = []"
      by (auto simp: filter_empty_conv rev_image_eqI)
    with split assms(3) show ?thesis by simp
  qed
  finally show ?thesis .
qed

lemma submit_vote_succeeds:
  assumes "submit_vote H st tok choice now ts voted = (Inr r, st')"
  shows "\<exists>d. map_of (tokens st) tok = Some d \<and> \<not> tk_used d \<and> \<not> now > tk_expires_at d \<and>
             window_active st (tk_session_id d) \<and> valid_choice choice \<and>
             st' = record_vote H st tok d choice ts voted"
  using assms by (auto simp: submit_vote_unfold split: option.splits if_splits)

text \<open>
  Claim C1. A token is redeemed at most once. After a \<open>submit_vote\<close> with the token has
  succeeded, and after any further requests, the token is still in the store with
  \<open>used = True\<close>, every \<open>submit_vote\<close> that presents it again (with any choice, at any
  time) is answered with \<open>AlreadyUsed\<close> and changes nothing, and the ledger of the
  token's session holds exactly one vote with the token's hash. The run draws fresh
  identifiers and tokens, and the hash does not collide on the issued tokens.
\<close>

theorem redeemed_once:
  assumes "fresh_run rnd H init_storage evs"
    and "submit_vote H (exec rnd H init_storage evs) tok choice now ts voted = (Inr r, st1)"
    and "fresh_run rnd H st1 later"
    and "inj_on H (fst ` set (tokens (exec rnd H st1 later)))"
  shows "\<exists>d. map_of (tokens (exec rnd H st1 later)) tok = Some d \<and> tk_used d \<and>
           (\<forall>choice' now' ts' voted'.
              submit_vote H (exec rnd H st1 later) tok choice' now' ts' voted'
                = (Inl AlreadyUsed, exec rnd H st1 later)) \<and>
           length (filter (\<lambda>v. v_token_hash v = H tok)
                     (ledger (exec rnd H st1 later) (tk_session_id d))) = 1"
proof -
  let ?st = "exec rnd H init_storage evs"
  let ?end = "exec rnd H st1 later"
  from submit_vote_succeeds [OF assms(2)] obtain d0 where
    d0: "map_of (tokens ?st) tok = Some d0" "\<not> tk_used d0" "valid_choice choice"
      "st1 = record_vote H ?st tok d0 choice ts voted"
    by blast
  define d where "d = d0\<lparr>tk_used := True, tk_voted_at := Some voted\<rparr>"
  have c0: "consistent H ?st"
    by (rule consistent_exec [OF consistent_init assms(1)])
  have c1: "consistent H st1"
    unfolding d0(4) by (rule consistent_record_vote [OF c0 d0(1,2,3)])
  have c2: "consistent H ?end"
    by (rule consistent_exec [OF c1 assms(3)])
  have u1: "map_of (tokens st1) tok = Some d" "tk_used d"
    by (simp_all add: d0(4) d_def AList.update_conv')
  have u2: "map_of (tokens ?end) tok = Some d"
    by (rule used_exec [OF u1 assms(3)])
  have again: "submit_vote H ?end tok choice' now' ts' voted' = (Inl AlreadyUsed, ?end)"
    for choice' now' ts' voted'
    using u2 u1(2) by (simp add: submit_vote_unfold guard_error_def)
  have one: "length (filter (\<lambda>v. v_token_hash v = H tok) (ledger ?end (tk_session_id d))) = 1"
    by (rule one_vote_per_redeemed_token [OF c2 u2 u1(2) assms(4)])
  from u2 u1(2) again one show ?thesis by blast
qed

text \<open>The run \<open>demo_closed\<close>, split at its vote.\<close>

lemma demo_hash_distinct: "demo_hash demo_token_a \<noteq> demo_hash demo_token_b"
  by (simp add: demo_hash_def demo_padding_def demo_token_a_def demo_token_b_def)

lemma demo_submit:
  "submit_vote demo_hash (exec demo_rnd demo_hash init_storage demo_open) demo_token_a choice_for 1001 1001 1001
     = (Inr (), exec demo_rnd demo_hash init_storage
                  (demo_open @ [SubmitVote demo_token_a choice_for 1001 1001 1001]))"
  by (simp add: exec_append prod_eq_iff) (simp add: demo_defs)

lemma demo_later_state:
  "exec demo_rnd demo_hash (exec demo_rnd demo_hash init_storage
       (demo_open @ [SubmitVote demo_token_a choice_for 1001 1001 1001])) demo_later
     = exec demo_rnd demo_hash init_storage demo_closed"
  by (simp add: demo_later_def demo_defs)

theorem redeemed_once_witness:
  "fresh_run demo_rnd demo_hash init_storage demo_open \<and>
   fst (submit_vote demo_hash (exec demo_rnd demo_hash init_storage demo_open) demo_token_a
          choice_for 1001 1001 1001) = Inr () \<and>
   submit_vote demo_hash (exec demo_rnd demo_hash init_storage demo_closed) demo_token_a
          choice_abstain 1003 1003 1003
     = (Inl AlreadyUsed, exec demo_rnd demo_hash init_storage demo_closed) \<and>
   length (filter (\<lambda>v. v_token_hash v = demo_hash demo_token_a)
             (ledger (exec demo_rnd demo_hash init_storage demo_closed) demo_sid)) = 1"
proof -
  let ?st1 = "exec demo_rnd demo_hash init_storage
                (demo_open @ [SubmitVote demo_token_a choice_for 1001 1001 1001])"
  let ?end = "exec demo_rnd demo_hash init_storage demo_closed"
  have f: "fresh_run demo_rnd demo_hash ?st1 demo_later"
    by (simp add: demo_later_def)
  have i: "inj_on demo_hash (fst ` set (tokens (exec demo_rnd demo_hash ?st1 demo_later)))"
    by (simp add: demo_later_state demo_closed_tokens demo_hash_distinct demo_tokens_distinct)
  from redeemed_once [OF demo_open_fresh demo_submit f i]
  obtain d where d: "map_of (tokens ?end) demo_token_a = Some d"
    "submit_vote demo_hash ?end demo_token_a choice_abstain 1003 1003 1003
       = (Inl AlreadyUsed, ?end)"
    "length (filter (\<lambda>v. v_token_hash v = demo_hash demo_token_a)
               (ledger ?end (tk_session_id d))) = 1"
    unfolding demo_later_state by blast
  from d(1) have "tk_session_id d = demo_sid" by (auto simp: demo_closed_tokens)
  with d(2,3) demo_open_fresh demo_submit show ?thesis by simp
qed

section \<open>Windows and rosters along a run\<close>

lemma sessions_step: "sessions st sid \<noteq> None \<Longrightarrow> sessions (step rnd H st ev) sid \<noteq> None"
proof (cases ev)
  case (SubmitVote tok choice now ts voted)
  assume "sessions st sid \<noteq> None"
  with submit_vote_snd [of H st tok choice now ts voted] SubmitVote show ?thesis by auto
qed simp_all

lemma active_voting_step:
  "active_voting st sid \<noteq> None \<Longrightarrow> active_voting (step rnd H st ev) sid \<noteq> None"
proof (cases ev)
  case (SubmitVote tok choice now ts voted)
  assume "active_voting st sid \<noteq> None"
  with submit_vote_snd [of H st tok choice now ts voted] SubmitVote show ?thesis by auto
next
  case (StartVoting sid' voting gen clock)
  assume "active_voting st sid \<noteq> None"
  with StartVoting show ?thesis by (simp add: active_voting_start_voting)
qed simp_all

lemma members_step:
  "sessions st sid \<noteq> None \<Longrightarrow> fresh st ev \<Longrightarrow> members (step rnd H st ev) sid = members st sid"
proof (cases ev)
  case (SubmitVote tok choice now ts voted)
  with submit_vote_snd [of H st tok choice now ts voted] show ?thesis by auto
next
  case (CreateSession sid' created_at session)
  assume "sessions st sid \<noteq> None" "fresh st ev"
  with CreateSession show ?thesis by auto
qed simp_all

lemma window_exec:
  assumes "active_voting st sid \<noteq> None" "sessions st sid \<noteq> None"
  shows "active_voting (exec rnd H st evs) sid \<noteq> None \<and> sessions (exec rnd H st evs) sid \<noteq> None"
  using assms
proof (induction evs arbitrary: st)
  case Nil
  then show ?case by simp
next
  case (Cons ev evs)
  have "active_voting (step rnd H st ev) sid \<noteq> None"
    using Cons.prems(1) by (rule active_voting_step)
  moreover have "sessions (step rnd H st ev) sid \<noteq> None"
    using Cons.prems(2) by (rule sessions_step)
  ultimately have "active_voting (exec rnd H (step rnd H st ev) evs) sid \<noteq> None \<and>
      sessions (exec rnd H (step rnd H st ev) evs) sid \<noteq> None"
    by (rule Cons.IH)
  then show ?case by simp
qed

lemma roster_exec:
  "sessions st sid \<noteq> None \<Longrightarrow> fresh_run rnd H st evs \<Longrightarrow> roster (exec rnd H st evs) sid = roster st sid"
proof (induction evs arbitrary: st)
  case Nil
  then show ?case by simp
next
  case (Cons ev evs)
  from Cons.prems have "roster (exec rnd H (step rnd H st ev) evs) sid = roster (step rnd H st ev) sid"
    by (intro Cons.IH) (simp_all add: sessions_step)
  also from Cons.prems have "\<dots> = roster st sid"
    by (simp add: roster_def members_step)
  finally show ?case by simp
qed

lemma opens_window:
  assumes "opens rnd st ev sid"
  shows "active_voting (step rnd H st ev) sid \<noteq> None \<and> sessions (step rnd H st ev) sid \<noteq> None"
proof (cases ev)
  case (StartVoting sid' voting gen clock)
  with assms show ?thesis
    by (auto simp: start_voting_unfold split: option.splits if_splits)
qed (use assms in simp_all)

lemma opened_window_exists:
  "0 < windows_opened rnd H st evs sid \<Longrightarrow>
   active_voting (exec rnd H st evs) sid \<noteq> None \<and> sessions (exec rnd H st evs) sid \<noteq> None"
proof (induction evs arbitrary: st)
  case Nil
  then show ?case by simp
next
  case (Cons ev evs)
  show ?case
  proof (cases "opens rnd st ev sid")
    case True
    from opens_window [OF True, of H]
    have "active_voting (step rnd H st ev) sid \<noteq> None" "sessions (step rnd H st ev) sid \<noteq> None"
      by blast+
    from window_exec [OF this, of rnd H evs] show ?thesis by simp
  next
    case False
    with Cons.prems have "0 < windows_opened rnd H (step rnd H st ev) evs sid" by simp
    from Cons.IH [OF this] show ?thesis by simp
  qed
qed

section \<open>Issued tokens along a run\<close>

lemma filter_new_entries_same:
  "filter (\<lambda>(t, d). tk_session_id d = sid) (new_entries rnd sid dur gen clock i ms) =
   new_entries rnd sid dur gen clock i ms"
  by (induction ms arbitrary: i) simp_all

lemma filter_new_entries_other:
  "sid' \<noteq> sid \<Longrightarrow>
   filter (\<lambda>(t, d). tk_session_id d = sid) (new_entries rnd sid' dur gen clock i ms) = []"
  by (induction ms arbitrary: i) simp_all

lemma issued_record_vote:
  assumes "map_of (tokens st) tok = Some d"
  shows "length (issued_for (record_vote H st tok d choice ts voted) sid) = length (issued_for st sid)"
proof -
  from update_split [OF assms] obtain xs ys where
    "tokens st = xs @ (tok, d) # ys"
    "AList.update tok (d\<lparr>tk_used := True, tk_voted_at := Some voted\<rparr>) (tokens st) =
       xs @ (tok, d\<lparr>tk_used := True, tk_voted_at := Some voted\<rparr>) # ys"
    by blast
  then show ?thesis by (simp add: issued_for_def)
qed

lemma issued_start_voting:
  assumes "fresh st (StartVoting sid' voting gen clock)"
  shows "length (issued_for (snd (start_voting rnd st sid' voting gen clock)) sid) =
         length (issued_for st sid) +
         (if sid' = sid \<and> \<not> isl (fst (start_voting rnd st sid' voting gen clock))
          then length (roster st sid) else 0)"
proof (cases "isl (fst (start_voting rnd st sid' voting gen clock))")
  case True
  then show ?thesis by (simp add: issued_for_def tokens_start_voting)
next
  case False
  let ?new = "new_entries rnd sid' (duration_minutes voting) gen clock 0 (roster st sid')"
  from assms have
    "fst (issue_tokens rnd sid' (duration_minutes voting) gen clock 0 (roster st sid') (tokens st) [])
       = tokens st @ ?new"
    by (intro issue_tokens_fresh) (use False in \<open>simp_all add: drawn_def start_voting_opens\<close>)
  with False have toks: "tokens (snd (start_voting rnd st sid' voting gen clock)) = tokens st @ ?new"
    by (simp add: tokens_start_voting)
  show ?thesis
  proof (cases "sid' = sid")
    case True
    have "length (filter (\<lambda>(t, d). tk_session_id d = sid) (tokens st @ ?new)) =
        length (filter (\<lambda>(t, d). tk_session_id d = sid) (tokens st)) + length (roster st sid)"
      unfolding True by (simp only: filter_append filter_new_entries_same length_append
          length_new_entries)
    with False True show ?thesis
      unfolding issued_for_def toks by (simp only: if_True simp_thms)
  next
    case other: False
    have "length (filter (\<lambda>(t, d). tk_session_id d = sid) (tokens st @ ?new)) =
        length (filter (\<lambda>(t, d). tk_session_id d = sid) (tokens st))"
      by (simp only: filter_append filter_new_entries_other [OF other] append_Nil2)
    with other show ?thesis
      unfolding issued_for_def toks by (simp only: if_False simp_thms add_0_right)
  qed
qed

lemma issued_submit_vote:
  "length (issued_for (snd (submit_vote H st tok choice now ts voted)) sid) = length (issued_for st sid)"
proof -
  from submit_vote_snd [of H st tok choice now ts voted] show ?thesis
  proof
    assume "snd (submit_vote H st tok choice now ts voted) = st"
    then show ?thesis by simp
  next
    assume "\<exists>d. map_of (tokens st) tok = Some d \<and> \<not> tk_used d \<and>
        window_active st (tk_session_id d) \<and> valid_choice choice \<and>
        snd (submit_vote H st tok choice now ts voted) = record_vote H st tok d choice ts voted"
    then obtain d where d: "map_of (tokens st) tok = Some d"
      "snd (submit_vote H st tok choice now ts voted) = record_vote H st tok d choice ts voted"
      by blast
    show ?thesis unfolding d(2) by (rule issued_record_vote [OF d(1)])
  qed
qed

lemma issued_step:
  assumes "fresh st ev"
  shows "length (issued_for (step rnd H st ev) sid) =
         length (issued_for st sid) + (if opens rnd st ev sid then length (roster st sid) else 0)"
proof (cases ev)
  case (CreateSession sid' created_at session)
  then show ?thesis by (simp add: issued_for_def)
next
  case (StartVoting sid' voting gen clock)
  with assms have "fresh st (StartVoting sid' voting gen clock)" by simp
  from issued_start_voting [OF this, of rnd sid] StartVoting show ?thesis
    by (simp del: fresh.simps)
next
  case (EndVoting sid')
  then show ?thesis by (simp add: issued_for_def)
next
  case (AutoEndVoting sid')
  then show ?thesis by (simp add: issued_for_def)
next
  case (SubmitVote tok choice now ts voted)
  then show ?thesis by (simp add: issued_submit_vote)
qed

lemma issued_exec:
  "fresh_run rnd H st evs \<Longrightarrow>
   length (issued_for (exec rnd H st evs) sid) =
   length (issued_for st sid) + windows_opened rnd H st evs sid * length (roster (exec rnd H st evs) sid)"
proof (induction evs arbitrary: st)
  case Nil
  then show ?case by simp
next
  case (Cons ev evs)
  let ?st1 = "step rnd H st ev"
  let ?end = "exec rnd H ?st1 evs"
  from Cons.prems have f: "fresh st ev" and fr: "fresh_run rnd H ?st1 evs" by simp_all
  have ih: "length (issued_for ?end sid) =
      length (issued_for ?st1 sid) + windows_opened rnd H ?st1 evs sid * length (roster ?end sid)"
    by (rule Cons.IH [OF fr])
  have st: "length (issued_for ?st1 sid) =
      length (issued_for st sid) + (if opens rnd st ev sid then length (roster st sid) else 0)"
    by (rule issued_step [OF f])
  show ?case
  proof (cases "opens rnd st ev sid")
    case True
    then have s: "sessions st sid \<noteq> None"
      by (cases ev) (simp_all add: start_voting_opens)
    then have "roster ?end sid = roster ?st1 sid"
      by (intro roster_exec [OF _ fr]) (rule sessions_step)
    also from s f have "\<dots> = roster st sid" by (simp add: roster_def members_step)
    finally have "roster ?end sid = roster st sid" .
    with ih st True show ?thesis by simp
  next
    case False
    with ih st show ?thesis by simp
  qed
qed

lemma issued_split:
  "length (issued_for st sid) = length (redeemed_for st sid) + length (outstanding_for st sid)"
proof -
  have "redeemed_for st sid = filter (\<lambda>(t, d). tk_used d) (issued_for st sid)"
    by (simp add: redeemed_for_def issued_for_def split_def conj_commute)
  moreover have "outstanding_for st sid = filter (\<lambda>p. \<not> (\<lambda>(t, d). tk_used d) p) (issued_for st sid)"
    by (simp add: outstanding_for_def issued_for_def split_def conj_commute)
  ultimately show ?thesis
    by (simp only: sum_length_filter_compl)
qed

lemma ledger_length:
  "consistent H st \<Longrightarrow> length (ledger st sid) = length (redeemed_for st sid)"
proof -
  assume "consistent H st"
  then have "mset (map v_token_hash (ledger st sid)) = mset (map (H \<circ> fst) (redeemed_for st sid))"
    unfolding consistent_def by blast
  then have "size (mset (map v_token_hash (ledger st sid)))
      = size (mset (map (H \<circ> fst) (redeemed_for st sid)))" by (rule arg_cong)
  then show ?thesis by simp
qed

lemma end_voting_returns:
  assumes "active_voting st sid = Some w" "sessions st sid = Some sess"
    "list_all (\<lambda>v. valid_choice (v_choice v)) (ledger st sid)"
  shows "fst (end_voting st sid) = Inr (tally (ledger st sid) (length (outstanding_for st sid)))"
    and "active_voting (snd (end_voting st sid)) sid =
           Some (w\<lparr>w_status := Finished,
                   w_results := Some (tally (ledger st sid) (length (outstanding_for st sid)))\<rparr>)"
proof -
  have t: "(tally (ledger st sid) 0)\<lparr>c_abstain := c_abstain (tally (ledger st sid) 0)
              + int (length (outstanding_for st sid))\<rparr>
           = tally (ledger st sid) (length (outstanding_for st sid))"
    by (simp add: tally_def)
  from assms show "fst (end_voting st sid) = Inr (tally (ledger st sid) (length (outstanding_for st sid)))"
    by (simp add: end_voting_def Let_def count_votes_zero count_unused_filter t
        flip: outstanding_for_def)
  from assms show "active_voting (snd (end_voting st sid)) sid =
           Some (w\<lparr>w_status := Finished,
                   w_results := Some (tally (ledger st sid) (length (outstanding_for st sid)))\<rparr>)"
    by (simp add: end_voting_def Let_def count_votes_zero count_unused_filter t
        flip: outstanding_for_def)
qed

text \<open>
  Claim C4. On a session on which a run has opened exactly one voting window (issuing
  one token per roster member), whatever votes were submitted, closing the window
  succeeds and the results it returns and records add up to the size of the roster:
  \<open>for + against + abstain = len(storage.members[session_id])\<close>. The run draws fresh
  identifiers and tokens.
\<close>

theorem results_sum_to_roster_size:
  assumes "fresh_run rnd H init_storage evs" "windows_opened rnd H init_storage evs sid = 1"
  shows "\<exists>res. fst (end_voting (exec rnd H init_storage evs) sid) = Inr res \<and>
           w_results (the (active_voting (snd (end_voting (exec rnd H init_storage evs) sid)) sid))
             = Some res \<and>
           c_for res + c_against res + c_abstain res
             = int (length (roster (exec rnd H init_storage evs) sid))"
proof -
  let ?st = "exec rnd H init_storage evs"
  let ?res = "tally (ledger ?st sid) (length (outstanding_for ?st sid))"
  have c: "consistent H ?st"
    by (rule consistent_exec [OF consistent_init assms(1)])
  from assms(2) have "0 < windows_opened rnd H init_storage evs sid" by simp
  from opened_window_exists [OF this] obtain w sess
    where w: "active_voting ?st sid = Some w" and s: "sessions ?st sid = Some sess" by auto
  have v: "list_all (\<lambda>v. valid_choice (v_choice v)) (ledger ?st sid)"
    by (rule valid_ledgers_reachable)
  have "length (issued_for ?st sid) = length (roster ?st sid)"
    using issued_exec [OF assms(1), of sid] assms(2)
    by (simp add: issued_for_def init_storage_def)
  then have "int (length (ledger ?st sid)) + int (length (outstanding_for ?st sid))
      = int (length (roster ?st sid))"
    by (simp add: ledger_length [OF c] issued_split)
  with tally_total [OF v, of "length (outstanding_for ?st sid)"]
  have sum: "c_for ?res + c_against ?res + c_abstain ?res = int (length (roster ?st sid))"
    by simp
  from end_voting_returns [OF w s v] sum show ?thesis by simp
qed

theorem results_sum_to_roster_size_witness:
  "fresh_run demo_rnd demo_hash init_storage (demo_open @ [SubmitVote demo_token_a choice_for 1001 1001 1001]) \<and>
   windows_opened demo_rnd demo_hash init_storage
     (demo_open @ [SubmitVote demo_token_a choice_for 1001 1001 1001]) demo_sid = 1 \<and>
   length (roster (exec demo_rnd demo_hash init_storage
     (demo_open @ [SubmitVote demo_token_a choice_for 1001 1001 1001])) demo_sid) = 2 \<and>
   fst (end_voting (exec demo_rnd demo_hash init_storage
     (demo_open @ [SubmitVote demo_token_a choice_for 1001 1001 1001])) demo_sid)
     = Inr \<lparr>c_for = 1, c_against = 0, c_abstain = 1\<rparr>"
proof -
  let ?evs = "demo_open @ [SubmitVote demo_token_a choice_for 1001 1001 1001]"
  have f: "fresh_run demo_rnd demo_hash init_storage ?evs"
    by (simp add: demo_defs)
  have o: "windows_opened demo_rnd demo_hash init_storage ?evs demo_sid = 1"
    by (simp add: demo_defs)
  have r: "length (roster (exec demo_rnd demo_hash init_storage ?evs) demo_sid) = 2"
    by (simp add: demo_defs)
  have e: "fst (end_voting (exec demo_rnd demo_hash init_storage ?evs) demo_sid)
     = Inr \<lparr>c_for = 1, c_against = 0, c_abstain = 1\<rparr>"
    by (simp add: demo_defs)
  from results_sum_to_roster_size [OF f o] f o r e show ?thesis by simp
qed

section \<open>Shapes of tokens and keys\<close>

lemma shapes_init: "shapes_ok init_storage"
  by (simp add: shapes_ok_def init_storage_def)

lemma shapes_create_session:
  "shapes_ok st \<Longrightarrow> length sid = uuid_length \<Longrightarrow>
   shapes_ok (snd (create_session st sid created_at session))"
  by (simp add: shapes_ok_def)

lemma shapes_start_voting:
  assumes "shapes_ok st" "shaped st (StartVoting sid voting gen clock)"
  shows "shapes_ok (snd (start_voting rnd st sid voting gen clock))"
proof -
  let ?st' = "snd (start_voting rnd st sid voting gen clock)"
  have keys: "fst ` set (tokens ?st') \<subseteq> fst ` set (tokens st) \<union> set (drawn gen (length (roster st sid)))"
    using keys_issue_tokens [of rnd sid "duration_minutes voting" gen clock 0 "roster st sid"
        "tokens st" "[]"]
    by (auto simp: tokens_start_voting drawn_def)
  from assms have "\<forall>t \<in> fst ` set (tokens st) \<union> set (drawn gen (length (roster st sid))).
      length t = token_length"
    by (auto simp: shapes_ok_def list_all_iff)
  with keys have "\<forall>t \<in> fst ` set (tokens ?st'). length t = token_length" by blast
  with assms(1) show ?thesis by (simp add: shapes_ok_def list_all_iff)
qed

lemma shapes_submit_vote:
  assumes "shapes_ok st"
  shows "shapes_ok (snd (submit_vote H st tok choice now ts voted))"
proof -
  from submit_vote_snd [of H st tok choice now ts voted] show ?thesis
  proof
    assume "snd (submit_vote H st tok choice now ts voted) = st"
    with assms show ?thesis by simp
  next
    assume "\<exists>d. map_of (tokens st) tok = Some d \<and> \<not> tk_used d \<and>
        window_active st (tk_session_id d) \<and> valid_choice choice \<and>
        snd (submit_vote H st tok choice now ts voted) = record_vote H st tok d choice ts voted"
    then obtain d where d: "map_of (tokens st) tok = Some d"
      "snd (submit_vote H st tok choice now ts voted) = record_vote H st tok d choice ts voted"
      by blast
    from d(1) have "(tok, d) \<in> set (tokens st)" by (rule map_of_SomeD)
    then have "tok \<in> fst ` set (tokens st)" by (rule image_eqI [rotated]) simp
    then have "fst ` set (tokens (record_vote H st tok d choice ts voted)) = fst ` set (tokens st)"
      by (auto simp: AList.dom_update)
    with assms show ?thesis unfolding d(2) by (simp add: shapes_ok_def list_all_iff)
  qed
qed

lemma shapes_step: "shapes_ok st \<Longrightarrow> shaped st ev \<Longrightarrow> shapes_ok (step rnd H st ev)"
proof (cases ev)
  case (CreateSession sid created_at session)
  assume "shapes_ok st" "shaped st ev"
  with CreateSession show ?thesis by (simp add: shapes_create_session)
next
  case (StartVoting sid voting gen clock)
  assume a: "shapes_ok st" "shaped st ev"
  from a(2) StartVoting have "shaped st (StartVoting sid voting gen clock)" by simp
  from shapes_start_voting [OF a(1) this] StartVoting show ?thesis by simp
next
  case (EndVoting sid)
  assume "shapes_ok st"
  with EndVoting show ?thesis by (simp add: shapes_ok_def)
next
  case (AutoEndVoting sid)
  assume "shapes_ok st"
  with AutoEndVoting show ?thesis by (simp add: shapes_ok_def)
next
  case (SubmitVote tok choice now ts voted)
  assume "shapes_ok st"
  with SubmitVote show ?thesis by (simp add: shapes_submit_vote)
qed

lemma shapes_exec: "shapes_ok st \<Longrightarrow> shaped_run rnd H st evs \<Longrightarrow> shapes_ok (exec rnd H st evs)"
  by (induction evs arbitrary: st) (simp_all add: shapes_step)

lemma choice_not_token: "valid_choice c \<Longrightarrow> length c \<noteq> token_length"
  by (auto simp: valid_choice_def choice_for_def choice_against_def choice_abstain_def
      token_length_def)

section \<open>What a ledger holds\<close>

lemma ledger_entry:
  assumes "consistent H st" "v \<in> set (ledger st sid)"
  shows "v_session_id v = sid" "valid_choice (v_choice v)"
    "\<exists>(t, d) \<in> set (redeemed_for st sid). v_token_hash v = H t"
    "sessions st sid \<noteq> None"
proof -
  from assms(1) have l: "list_all (\<lambda>v. valid_choice (v_choice v) \<and> v_session_id v = sid) (ledger st sid)"
    and h: "mset (map v_token_hash (ledger st sid)) = mset (map (H \<circ> fst) (redeemed_for st sid))"
    unfolding consistent_def by blast+
  from l assms(2) show "v_session_id v = sid" "valid_choice (v_choice v)"
    by (auto simp: list_all_iff)
  from h have "set (map v_token_hash (ledger st sid)) = set (map (H \<circ> fst) (redeemed_for st sid))"
    by (rule mset_eq_setD)
  moreover from assms(2) have "v_token_hash v \<in> set (map v_token_hash (ledger st sid))" by simp
  ultimately have "v_token_hash v \<in> set (map (H \<circ> fst) (redeemed_for st sid))" by blast
  then show "\<exists>(t, d) \<in> set (redeemed_for st sid). v_token_hash v = H t" by auto
  show "sessions st sid \<noteq> None"
  proof
    assume "sessions st sid = None"
    from consistent_no_tokens(3) [OF assms(1) this] assms(2) show False by simp
  qed
qed

lemma ledger_entry_no_token:
  assumes "consistent H st" "shapes_ok st" "\<forall>t. length (H t) = digest_length"
    "v \<in> set (ledger st sid)" "t \<in> fst ` set (tokens st)"
  shows "v_token_hash v \<noteq> t \<and> v_session_id v \<noteq> t \<and> v_choice v \<noteq> t"
proof -
  from assms(2,5) have t: "length t = token_length"
    by (auto simp: shapes_ok_def list_all_iff)
  from ledger_entry(3) [OF assms(1,4)] obtain t' where "v_token_hash v = H t'" by auto
  with assms(3) have "length (v_token_hash v) = digest_length" by simp
  with t have 1: "v_token_hash v \<noteq> t" by (auto simp: digest_length_def token_length_def)
  from ledger_entry(1,4) [OF assms(1,4)] assms(2) have "length (v_session_id v) = uuid_length"
    by (simp add: shapes_ok_def)
  with t have 2: "v_session_id v \<noteq> t" by (auto simp: uuid_length_def token_length_def)
  from choice_not_token [OF ledger_entry(2) [OF assms(1,4)]] t have 3: "v_choice v \<noteq> t" by auto
  from 1 2 3 show ?thesis by blast
qed

lemma submit_vote_appends:
  assumes "consistent H st" "submit_vote H st tok choice now ts voted = (Inr r, st')"
  shows "\<exists>d. map_of (tokens st) tok = Some d \<and> \<not> tk_used d \<and>
           votes st' = (votes st)(tk_session_id d \<mapsto> ledger st (tk_session_id d) @
              [\<lparr>v_session_id = tk_session_id d, v_choice = choice,
                v_timestamp = ts, v_token_hash = H tok\<rparr>]) \<and>
           tokens st' = AList.update tok (d\<lparr>tk_used := True, tk_voted_at := Some voted\<rparr>) (tokens st) \<and>
           map_of (tokens st') = (map_of (tokens st))(tok \<mapsto> d\<lparr>tk_used := True, tk_voted_at := Some voted\<rparr>) \<and>
           length (ledger st' (tk_session_id d)) = Suc (length (ledger st (tk_session_id d))) \<and>
           length (redeemed_for st' (tk_session_id d)) = Suc (length (redeemed_for st (tk_session_id d)))"
proof -
  from submit_vote_succeeds [OF assms(2)] obtain d where
    d: "map_of (tokens st) tok = Some d" "\<not> tk_used d" "valid_choice choice"
      "st' = record_vote H st tok d choice ts voted"
    by blast
  have c': "consistent H st'"
    unfolding d(4) by (rule consistent_record_vote [OF assms(1) d(1,2,3)])
  have v: "votes st' = (votes st)(tk_session_id d \<mapsto> ledger st (tk_session_id d) @
              [\<lparr>v_session_id = tk_session_id d, v_choice = choice,
                v_timestamp = ts, v_token_hash = H tok\<rparr>])"
    by (simp add: d(4) record_vote_def)
  have t: "tokens st' = AList.update tok (d\<lparr>tk_used := True, tk_voted_at := Some voted\<rparr>) (tokens st)"
    by (simp add: d(4))
  have m: "map_of (tokens st') = (map_of (tokens st))(tok \<mapsto> d\<lparr>tk_used := True, tk_voted_at := Some voted\<rparr>)"
    by (simp only: t AList.update_conv')
  have l: "length (ledger st' (tk_session_id d)) = Suc (length (ledger st (tk_session_id d)))"
    by (simp add: d(4) ledger_record_vote)
  have r: "length (redeemed_for st' (tk_session_id d)) = Suc (length (redeemed_for st (tk_session_id d)))"
    using l by (simp only: ledger_length [OF c', symmetric] ledger_length [OF assms(1), symmetric])
  from d(1,2) v t m l r show ?thesis by blast
qed

text \<open>
  Claim C10. In every storage the engine reaches, each record of a session's ledger
  carries that session's key, an admissible choice, a timestamp and, as \<open>token_hash\<close>,
  the hash of one of the session's redeemed tokens; none of its string fields equals
  any token in the store. A successful \<open>submit_vote\<close> appends exactly one record (with
  the hash of the presented token) to the ledger of the token's session and rewrites
  exactly that token's entry, setting \<open>used\<close>; so the length of a session's ledger is
  always the number of the session's tokens with \<open>used = True\<close>. The run draws fresh
  identifiers and tokens of the shapes the libraries produce, and the hash returns
  digests of the digest's length.
\<close>

theorem ledger_holds_hashes_only:
  assumes "fresh_run rnd H init_storage evs" "shaped_run rnd H init_storage evs"
    "\<forall>t. length (H t) = digest_length"
  shows
   "(\<forall>sid. \<forall>v \<in> set (ledger (exec rnd H init_storage evs) sid).
       v_session_id v = sid \<and> valid_choice (v_choice v) \<and>
       (\<exists>(t, d) \<in> set (redeemed_for (exec rnd H init_storage evs) sid). v_token_hash v = H t) \<and>
       (\<forall>t \<in> fst ` set (tokens (exec rnd H init_storage evs)).
          v_token_hash v \<noteq> t \<and> v_session_id v \<noteq> t \<and> v_choice v \<noteq> t)) \<and>
    (\<forall>sid. length (ledger (exec rnd H init_storage evs) sid)
             = length (redeemed_for (exec rnd H init_storage evs) sid)) \<and>
    (\<forall>tok choice now ts voted r st'.
       submit_vote H (exec rnd H init_storage evs) tok choice now ts voted = (Inr r, st') \<longrightarrow>
       (\<exists>d. map_of (tokens (exec rnd H init_storage evs)) tok = Some d \<and> \<not> tk_used d \<and>
          votes st' = (votes (exec rnd H init_storage evs))(tk_session_id d \<mapsto>
             ledger (exec rnd H init_storage evs) (tk_session_id d) @
              [\<lparr>v_session_id = tk_session_id d, v_choice = choice,
                v_timestamp = ts, v_token_hash = H tok\<rparr>]) \<and>
          tokens st' = AList.update tok (d\<lparr>tk_used := True, tk_voted_at := Some voted\<rparr>)
                         (tokens (exec rnd H init_storage evs)) \<and>
          map_of (tokens st') = (map_of (tokens (exec rnd H init_storage evs)))
                         (tok \<mapsto> d\<lparr>tk_used := True, tk_voted_at := Some voted\<rparr>) \<and>
          length (ledger st' (tk_session_id d))
            = Suc (length (ledger (exec rnd H init_storage evs) (tk_session_id d))) \<and>
          length (redeemed_for st' (tk_session_id d))
            = Suc (length (redeemed_for (exec rnd H init_storage evs) (tk_session_id d)))))"
proof -
  let ?st = "exec rnd H init_storage evs"
  have c: "consistent H ?st"
    by (rule consistent_exec [OF consistent_init assms(1)])
  have s: "shapes_ok ?st"
    by (rule shapes_exec [OF shapes_init assms(2)])
  have 1: "\<forall>sid. \<forall>v \<in> set (ledger ?st sid).
       v_session_id v = sid \<and> valid_choice (v_choice v) \<and>
       (\<exists>(t, d) \<in> set (redeemed_for ?st sid). v_token_hash v = H t) \<and>
       (\<forall>t \<in> fst ` set (tokens ?st).
          v_token_hash v \<noteq> t \<and> v_session_id v \<noteq> t \<and> v_choice v \<noteq> t)"
  proof (intro allI ballI conjI)
    fix sid v assume v: "v \<in> set (ledger ?st sid)"
    show "v_session_id v = sid" by (rule ledger_entry(1) [OF c v])
    show "valid_choice (v_choice v)" by (rule ledger_entry(2) [OF c v])
    show "\<exists>(t, d) \<in> set (redeemed_for ?st sid). v_token_hash v = H t"
      by (rule ledger_entry(3) [OF c v])
    fix t assume t: "t \<in> fst ` set (tokens ?st)"
    from ledger_entry_no_token [OF c s assms(3) v t]
    show "v_token_hash v \<noteq> t" "v_session_id v \<noteq> t" "v_choice v \<noteq> t" by blast+
  qed
  have 2: "\<forall>sid. length (ledger ?st sid) = length (redeemed_for ?st sid)"
    by (intro allI) (rule ledger_length [OF c])
  have 3: "\<forall>tok choice now ts voted r st'.
       submit_vote H ?st tok choice now ts voted = (Inr r, st') \<longrightarrow>
       (\<exists>d. map_of (tokens ?st) tok = Some d \<and> \<not> tk_used d \<and>
          votes st' = (votes ?st)(tk_session_id d \<mapsto> ledger ?st (tk_session_id d) @
              [\<lparr>v_session_id = tk_session_id d, v_choice = choice,
                v_timestamp = ts, v_token_hash = H tok\<rparr>]) \<and>
          tokens st' = AList.update tok (d\<lparr>tk_used := True, tk_voted_at := Some voted\<rparr>) (tokens ?st) \<and>
          map_of (tokens st') = (map_of (tokens ?st))
                         (tok \<mapsto> d\<lparr>tk_used := True, tk_voted_at := Some voted\<rparr>) \<and>
          length (ledger st' (tk_session_id d)) = Suc (length (ledger ?st (tk_session_id d))) \<and>
          length (redeemed_for st' (tk_session_id d))
            = Suc (length (redeemed_for ?st (tk_session_id d))))"
    by (intro allI impI) (rule submit_vote_appends [OF c])
  show ?thesis by (rule conjI [OF 1 conjI [OF 2 3]])
qed

text \<open>The run \<open>demo_voted\<close>.\<close>

lemma demo_padding_length: "length demo_padding = 64"
  by (simp add: demo_padding_def)

lemma demo_hash_length: "\<forall>t. length (demo_hash t) = digest_length"
proof
  fix t
  have "length (take 64 (t @ demo_padding)) = min (length t + 64) 64"
    by (simp only: length_take length_append demo_padding_length)
  also have "\<dots> = 64" by arith
  finally show "length (demo_hash t) = digest_length"
    by (simp only: demo_hash_def digest_length_def)
qed

lemma demo_voted_fresh: "fresh_run demo_rnd demo_hash init_storage demo_voted"
  by (simp add: demo_voted_def demo_defs)

lemma demo_voted_shaped: "shaped_run demo_rnd demo_hash init_storage demo_voted"
  by (simp add: demo_voted_def demo_defs uuid_length_def token_length_def demo_sid_def
      demo_token_a_def demo_token_b_def)

lemma demo_voted_ledger:
  "ledger (exec demo_rnd demo_hash init_storage demo_voted) demo_sid =
     [\<lparr>v_session_id = demo_sid, v_choice = choice_for, v_timestamp = 1001,
       v_token_hash = demo_hash demo_token_a\<rparr>]"
  by (simp add: demo_voted_def demo_open_def init_storage_def create_session_def
      start_voting_unfold demo_session_def demo_voting_def demo_gen_def demo_clock_def
      demo_tokens_distinct submit_vote_def Let_def ledger_def valid_choice_def
      count_one_def zero_count_def choices_distinct roster_def drawn_def
      fits_float_minute demo_rnd_def float_add_def to_float_def)

lemma demo_voted_tokens:
  "map fst (tokens (exec demo_rnd demo_hash init_storage demo_voted)) = [demo_token_a, demo_token_b]"
  by (simp add: demo_voted_def demo_defs)

theorem ledger_holds_hashes_only_witness:
  "fresh_run demo_rnd demo_hash init_storage demo_voted \<and>
   shaped_run demo_rnd demo_hash init_storage demo_voted \<and>
   ledger (exec demo_rnd demo_hash init_storage demo_voted) demo_sid =
     [\<lparr>v_session_id = demo_sid, v_choice = choice_for, v_timestamp = 1001,
       v_token_hash = demo_hash demo_token_a\<rparr>] \<and>
   demo_hash demo_token_a \<noteq> demo_token_a \<and> demo_hash demo_token_a \<noteq> demo_token_b \<and>
   demo_sid \<noteq> demo_token_a \<and> choice_for \<noteq> demo_token_a \<and>
   length (redeemed_for (exec demo_rnd demo_hash init_storage demo_voted) demo_sid) = 1"
proof -
  let ?st = "exec demo_rnd demo_hash init_storage demo_voted"
  let ?v = "\<lparr>v_session_id = demo_sid, v_choice = choice_for, v_timestamp = 1001,
       v_token_hash = demo_hash demo_token_a\<rparr>"
  note T = ledger_holds_hashes_only [OF demo_voted_fresh demo_voted_shaped demo_hash_length]
  have v: "?v \<in> set (ledger ?st demo_sid)"
    by (simp add: demo_voted_ledger)
  have a: "demo_token_a \<in> fst ` set (tokens ?st)" and b: "demo_token_b \<in> fst ` set (tokens ?st)"
    using demo_voted_tokens by (simp_all flip: set_map)
  from T v a have "v_token_hash ?v \<noteq> demo_token_a \<and> v_session_id ?v \<noteq> demo_token_a \<and>
      v_choice ?v \<noteq> demo_token_a" by blast
  moreover from T v b have "v_token_hash ?v \<noteq> demo_token_b" by blast
  moreover from T have "length (ledger ?st demo_sid) = length (redeemed_for ?st demo_sid)"
    by blast
  ultimately show ?thesis
    using demo_voted_fresh demo_voted_shaped demo_voted_ledger by simp
qed

end
